theory Spec2Isabelle
  imports Main "HOL-Library.Word" "HOL-Library.Char_ord"
begin

unbundle bit_operations_syntax

section \<open>Data model\<close>

text \<open>
  Go strings and byte slices are sequences of bytes. A Go \<^verbatim>\<open>string\<close> is modelled as
  \<^typ>\<open>string\<close> (a list of 8-bit characters), a \<^verbatim>\<open>[]byte\<close> as a list of 8-bit words.
  Slices are lists: a nil slice and an empty slice are both the empty list.
  A function that can panic returns an \<open>option\<close>: \<open>None\<close> is the panic.\<close>

type_synonym byte = "8 word"

text \<open>Every error value the two packages build, and those of the standard library that they wrap.\<close>

datatype error =
    NotValidFormat string
  | CorruptInputError nat
  | SaltDecodingError error
  | HashDecodingError error
  | PHCDecodeError error
  | UnsupportedHashingFunction string
  | UnsupportedVersion string
  | InvalidParameterCount nat
  | ParameterOrder
  | ErrSyntax string
  | ErrRange string
  | MemoryParameterError error
  | TimeParameterError error
  | ParallelismParameterError error
  | HashTooLong nat
  | SaltGenerationError error
  | EOF
  | ErrUnexpectedEOF
  | OtherError string

record Parameter =
  Name :: string
  Value :: string

record Format =
  ID :: string
  Version :: string
  Params :: "Parameter list"
  Salt :: "byte list"
  Hash :: "byte list"

section \<open>Package regexp: leftmost-first matching with submatches\<close>

text \<open>
  The syntax tree of the regular expressions the program uses. \<open>Opt\<close> and \<open>Star\<close> are the
  greedy \<^verbatim>\<open>?\<close> and \<^verbatim>\<open>*\<close>, \<open>Cap k\<close> is the capturing group number \<open>k\<close>, \<open>Bol\<close> and \<open>Eol\<close>
  are \<^verbatim>\<open>^\<close> and \<^verbatim>\<open>$\<close> (without the multi-line flag: begin and end of the text).\<close>

datatype regex =
    Chr char
  | Cls "char \<Rightarrow> bool"
  | Cat regex regex
  | Opt regex
  | Star regex
  | Cap nat regex
  | Bol
  | Eol
  | Eps

type_synonym caps = "nat \<Rightarrow> string"

text \<open>
  \<open>rmatch n r s c\<close> lists, in the order of preference of a backtracking matcher, every way
  \<open>r\<close> matches a prefix of the remaining input \<open>s\<close>: the input left over and the submatches
  recorded so far. \<open>n\<close> is the length of the whole text. A greedy operator lists the longer
  alternative first; the first element of the list is the leftmost-first match that package
  regexp reports. An iteration of \<open>Star\<close> that consumes nothing is dropped.\<close>

function rmatch :: "nat \<Rightarrow> regex \<Rightarrow> string \<Rightarrow> caps \<Rightarrow> (string \<times> caps) list" where
  "rmatch n (Chr a) s c = (case s of [] \<Rightarrow> [] | x # xs \<Rightarrow> if x = a then [(xs, c)] else [])"
| "rmatch n (Cls P) s c = (case s of [] \<Rightarrow> [] | x # xs \<Rightarrow> if P x then [(xs, c)] else [])"
| "rmatch n (Cat r1 r2) s c =
     concat (map (\<lambda>st. rmatch n r2 (fst st) (snd st)) (rmatch n r1 s c))"
| "rmatch n (Opt r) s c = rmatch n r s c @ [(s, c)]"
| "rmatch n (Star r) s c =
     concat (map (\<lambda>st. if length (fst st) < length s
                        then rmatch n (Star r) (fst st) (snd st) else [])
                 (rmatch n r s c)) @ [(s, c)]"
| "rmatch n (Cap k r) s c =
     map (\<lambda>st. (fst st, (snd st)(k := take (length s - length (fst st)) s))) (rmatch n r s c)"
| "rmatch n Bol s c = (if length s = n then [(s, c)] else [])"
| "rmatch n Eol s c = (if s = [] then [(s, c)] else [])"
| "rmatch n Eps s c = [(s, c)]"
  by pat_completeness auto
termination
  by (relation "measures [\<lambda>(n, r, s, c). size r, \<lambda>(n, r, s, c). length s]") auto

text \<open>\<^verbatim>\<open>x+\<close> is \<^verbatim>\<open>xx*\<close>, and \<^verbatim>\<open>x{1,32}\<close> is \<^verbatim>\<open>x(x(x...)?)?\<close> with 31 nested options.\<close>

definition Plus :: "regex \<Rightarrow> regex" where
  "Plus r = Cat r (Star r)"

fun upto_rep :: "regex \<Rightarrow> nat \<Rightarrow> regex" where
  "upto_rep r 0 = Eps"
| "upto_rep r (Suc k) = Opt (Cat r (upto_rep r k))"

text \<open>
  \<^verbatim>\<open>FindStringSubmatch\<close>: the match is tried at every start position from the left; the
  result holds the text of the whole match at index 0 and of every group at its number, the
  empty string for a group that took no part. \<open>None\<close> is the nil result.\<close>

definition FindStringSubmatch :: "regex \<Rightarrow> string \<Rightarrow> caps option" where
  "FindStringSubmatch re text =
     (case concat (map (\<lambda>i. rmatch (length text) (Cap 0 re) (drop i text) (\<lambda>_. []))
                       [0..<Suc (length text)]) of
        [] \<Rightarrow> None
      | st # _ \<Rightarrow> Some (snd st))"

section \<open>Package strings\<close>

text \<open>\<^verbatim>\<open>strings.Split\<close> for a separator of one byte, as both calls of the program have it.\<close>

fun Split :: "string \<Rightarrow> char \<Rightarrow> string list" where
  "Split [] sep = [] # []"
| "Split (x # xs) sep =
     (if x = sep then [] # Split xs sep
      else (case Split xs sep of [] \<Rightarrow> [x] # [] | y # ys \<Rightarrow> (x # y) # ys))"

section \<open>Package encoding/base64: RawStdEncoding\<close>

definition encodeStd :: string where
  "encodeStd = ''ABCDEFGHIJKLMNOPQRSTUVWXYZabcdefghijklmnopqrstuvwxyz0123456789+/''"

text \<open>The decoding table: the index of a character of the alphabet, 255 for any other byte.\<close>

definition decodeMap :: "char \<Rightarrow> byte" where
  "decodeMap x = (case map_of (zip encodeStd (map of_nat [0..<64])) x of
                    None \<Rightarrow> 255 | Some v \<Rightarrow> v)"

definition enc :: "64 word \<Rightarrow> char" where
  "enc v = encodeStd ! unat (v AND 63)"

text \<open>Encoding without padding: three bytes give four characters, a rest of one or two bytes
  gives two or three.\<close>

fun EncodeToString :: "byte list \<Rightarrow> string" where
  "EncodeToString (a # b # c # src) =
     (let val = push_bit 16 (ucast a) OR push_bit 8 (ucast b) OR ucast c
      in [enc (drop_bit 18 val), enc (drop_bit 12 val), enc (drop_bit 6 val), enc val]
         @ EncodeToString src)"
| "EncodeToString [a, b] =
     (let val = push_bit 16 (ucast a) OR push_bit 8 (ucast b)
      in [enc (drop_bit 18 val), enc (drop_bit 12 val), enc (drop_bit 6 val)])"
| "EncodeToString [a] =
     (let val = push_bit 16 (ucast a)
      in [enc (drop_bit 18 val), enc (drop_bit 12 val)])"
| "EncodeToString [] = []"

text \<open>
  One quantum of decoding: up to four 6-bit values give up to three bytes. The encoding is
  not strict: the bits of the last value that do not fit a whole byte are dropped without a
  check.\<close>

definition assemble :: "byte \<Rightarrow> byte \<Rightarrow> byte \<Rightarrow> byte \<Rightarrow> byte list" where
  "assemble d0 d1 d2 d3 =
     (let val = (push_bit 18 (ucast d0) OR push_bit 12 (ucast d1)
                 OR push_bit 6 (ucast d2) OR ucast d3 :: 64 word)
      in [ucast (drop_bit 16 val), ucast (drop_bit 8 val), ucast val])"

fun quantum :: "byte list \<Rightarrow> byte list" where
  "quantum [d0, d1] = take 1 (assemble d0 d1 0 0)"
| "quantum [d0, d1, d2] = take 2 (assemble d0 d1 d2 0)"
| "quantum [d0, d1, d2, d3] = assemble d0 d1 d2 d3"
| "quantum _ = []"

text \<open>
  \<open>decode si dbuf src\<close>: \<open>si\<close> is the index of the next byte of the source, \<open>dbuf\<close> the values
  of the quantum read so far. Carriage return and line feed are skipped, any other byte
  outside the alphabet is an error at its index, and one value alone at the end is an error.\<close>

fun decode :: "nat \<Rightarrow> byte list \<Rightarrow> string \<Rightarrow> error + byte list" where
  "decode si dbuf [] =
     (if length dbuf = 1 then Inl (CorruptInputError (si - 1)) else Inr (quantum dbuf))"
| "decode si dbuf (x # src) =
     (if decodeMap x \<noteq> 255 then
        (if length dbuf = 3 then
           (case decode (Suc si) [] src of
              Inl e \<Rightarrow> Inl e
            | Inr dst \<Rightarrow> Inr (quantum (dbuf @ [decodeMap x]) @ dst))
         else decode (Suc si) (dbuf @ [decodeMap x]) src)
      else if x = CHR 0x0A \<or> x = CHR 0x0D then decode (Suc si) dbuf src
      else Inl (CorruptInputError si))"

definition DecodeString :: "string \<Rightarrow> error + byte list" where
  "DecodeString s = decode 0 [] s"

section \<open>Package phc\<close>

definition lower :: "char \<Rightarrow> bool" where
  "lower x = (CHR ''a'' \<le> x \<and> x \<le> CHR ''z'')"

definition upper :: "char \<Rightarrow> bool" where
  "upper x = (CHR ''A'' \<le> x \<and> x \<le> CHR ''Z'')"

definition digit :: "char \<Rightarrow> bool" where
  "digit x = (CHR ''0'' \<le> x \<and> x \<le> CHR ''9'')"

text \<open>The classes \<^verbatim>\<open>[a-z0-9-]\<close> and \<^verbatim>\<open>[a-zA-Z0-9/+.-]\<close>.\<close>

definition cls_name :: "char \<Rightarrow> bool" where
  "cls_name x = (lower x \<or> digit x \<or> x = CHR ''-'')"

definition cls_value :: "char \<Rightarrow> bool" where
  "cls_value x = (lower x \<or> upper x \<or> digit x \<or> x = CHR ''/'' \<or> x = CHR ''+''
                  \<or> x = CHR ''.'' \<or> x = CHR ''-'')"

text \<open>One parameter, \<^verbatim>\<open>[a-z0-9-]+=[a-zA-Z0-9/+.-]+\<close>.\<close>

definition param_re :: regex where
  "param_re = Cat (Plus (Cls cls_name)) (Cat (Chr CHR ''='') (Plus (Cls cls_value)))"

text \<open>\<^verbatim>\<open>\$([a-z0-9-]{1,32})\<close>\<close>

definition id_re :: regex where
  "id_re = Cat (Chr CHR ''$'') (Cap 1 (Cat (Cls cls_name) (upto_rep (Cls cls_name) 31)))"

text \<open>\<^verbatim>\<open>(?:\$v=([0-9]+))?\<close>\<close>

definition version_group :: regex where
  "version_group = Cat (Chr CHR ''$'') (Cat (Chr CHR ''v'') (Cat (Chr CHR ''='')
                     (Cap 2 (Plus (Cls digit)))))"

definition version_re :: regex where
  "version_re = Opt version_group"

text \<open>\<^verbatim>\<open>(?:\$([a-z0-9-]+=[a-zA-Z0-9/+.-]+(?:,[a-z0-9-]+=[a-zA-Z0-9/+.-]+)*))?\<close>\<close>

definition params_group :: regex where
  "params_group = Cat (Chr CHR ''$'')
                    (Cap 3 (Cat param_re (Star (Cat (Chr CHR '','') param_re))))"

definition params_re :: regex where
  "params_re = Opt params_group"

text \<open>\<^verbatim>\<open>(?:\$([a-zA-Z0-9/+.-]+)(?:\$([a-zA-Z0-9/+.-]+))?)?\<close>\<close>

definition hash_group :: regex where
  "hash_group = Cat (Chr CHR ''$'') (Cap 5 (Plus (Cls cls_value)))"

definition salt_hash_group :: regex where
  "salt_hash_group = Cat (Chr CHR ''$'') (Cat (Cap 4 (Plus (Cls cls_value))) (Opt hash_group))"

definition salt_hash_re :: regex where
  "salt_hash_re = Opt salt_hash_group"

text \<open>The pattern \<^verbatim>\<open>format\<close>, anchored at both ends.\<close>

definition format :: regex where
  "format = Cat Bol (Cat id_re (Cat version_re (Cat params_re (Cat salt_hash_re Eol))))"

text \<open>The loop over the split parameter list; \<^verbatim>\<open>kv[1]\<close> panics when there is no \<^verbatim>\<open>=\<close>.\<close>

fun parse_params :: "string list \<Rightarrow> Parameter list option" where
  "parse_params [] = Some []"
| "parse_params (param # split) =
     (case Split param CHR ''='' of
        k # v # _ \<Rightarrow>
          (case parse_params split of
             None \<Rightarrow> None
           | Some ps \<Rightarrow> Some (\<lparr>Name = k, Value = v\<rparr> # ps))
      | _ \<Rightarrow> None)"

text \<open>
  \<^verbatim>\<open>UnmarshalText\<close> takes the receiver and returns the error, if any, with the receiver after
  the call.\<close>

definition UnmarshalText :: "Format \<Rightarrow> string \<Rightarrow> (error option \<times> Format) option" where
  "UnmarshalText f text =
     (case FindStringSubmatch format text of
        None \<Rightarrow> Some (Some (NotValidFormat text), f)
      | Some submatches \<Rightarrow>
          (case (if length (submatches 3) > 0
                 then parse_params (Split (submatches 3) CHR '','') else Some []) of
             None \<Rightarrow> None
           | Some ps \<Rightarrow>
               (let ret = \<lparr>ID = submatches 1, Version = submatches 2, Params = ps,
                           Salt = [], Hash = []\<rparr>
                in if length (submatches 4) > 0 then
                     (case DecodeString (submatches 4) of
                        Inl err \<Rightarrow> Some (Some (SaltDecodingError err), f)
                      | Inr salt \<Rightarrow>
                          if length (submatches 5) > 0 then
                            (case DecodeString (submatches 5) of
                               Inl err \<Rightarrow> Some (Some (HashDecodingError err), f)
                             | Inr hash \<Rightarrow> Some (None, ret\<lparr>Salt := salt, Hash := hash\<rparr>))
                          else Some (None, ret\<lparr>Salt := salt\<rparr>))
                   else Some (None, ret))))"

definition zero_Format :: Format where
  "zero_Format = \<lparr>ID = [], Version = [], Params = [], Salt = [], Hash = []\<rparr>"

definition phc_Decode :: "string \<Rightarrow> (error + Format) option" where
  "phc_Decode raw =
     (case UnmarshalText zero_Format raw of
        None \<Rightarrow> None
      | Some (Some err, _) \<Rightarrow> Some (Inl err)
      | Some (None, f) \<Rightarrow> Some (Inr f))"

fun write_params :: "nat \<Rightarrow> Parameter list \<Rightarrow> string" where
  "write_params i [] = []"
| "write_params i (param # ps) =
     (if i > 0 then '','' else []) @ Name param @ ''='' @ Value param @ write_params (Suc i) ps"

definition String :: "Format \<Rightarrow> string" where
  "String f =
     ''$'' @ ID f
     @ (if Version f \<noteq> [] then ''$v='' @ Version f else [])
     @ (if length (Params f) > 0 then ''$'' @ write_params 0 (Params f) else [])
     @ (if length (Salt f) > 0 then
          ''$'' @ EncodeToString (Salt f)
          @ (if length (Hash f) > 0 then ''$'' @ EncodeToString (Hash f) else [])
        else [])"

definition MarshalText :: "Format \<Rightarrow> string \<times> error option" where
  "MarshalText f = (String f, None)"

section \<open>Package strconv\<close>

text \<open>The value of a decimal digit and of a string of decimal digits.\<close>

definition digit_val :: "char \<Rightarrow> nat" where
  "digit_val x = of_char x - 48"

definition dec_value :: "string \<Rightarrow> nat" where
  "dec_value s = foldl (\<lambda>a x. a * 10 + digit_val x) 0 s"

text \<open>
  \<^verbatim>\<open>ParseUint(s, 10, bitSize)\<close>. The loop keeps the value read so far in a 64-bit word; in
  base 10 every byte that is not a decimal digit is a syntax error.\<close>

definition cutoff :: "64 word" where
  "cutoff = 18446744073709551615 div 10 + 1"

fun ParseUint_loop :: "64 word \<Rightarrow> string \<Rightarrow> 64 word \<Rightarrow> string \<Rightarrow> error + 64 word" where
  "ParseUint_loop maxVal s0 n [] = Inr n"
| "ParseUint_loop maxVal s0 n (x # s) =
     (if \<not> digit x then Inl (ErrSyntax s0)
      else if n \<ge> cutoff then Inl (ErrRange s0)
      else (let n' = n * 10; n1 = n' + of_nat (digit_val x)
            in if n1 < n' \<or> n1 > maxVal then Inl (ErrRange s0)
               else ParseUint_loop maxVal s0 n1 s))"

definition ParseUint :: "string \<Rightarrow> nat \<Rightarrow> error + 64 word" where
  "ParseUint s bitSize =
     (if s = [] then Inl (ErrSyntax s) else ParseUint_loop (2 ^ bitSize - 1) s 0 s)"

definition digits :: string where
  "digits = ''0123456789''"

fun decimal :: "nat \<Rightarrow> string" where
  "decimal n = (if n < 10 then [digits ! n]
                else decimal (n div 10) @ [digits ! (n mod 10)])"

definition FormatUint :: "64 word \<Rightarrow> string" where
  "FormatUint u = decimal (unat u)"

definition Itoa :: "int \<Rightarrow> string" where
  "Itoa i = (if i < 0 then ''-'' @ decimal (nat (- i)) else decimal (nat i))"

text \<open>What the specification calls an unsigned decimal of a given width.\<close>

definition is_uint_decimal :: "nat \<Rightarrow> string \<Rightarrow> bool" where
  "is_uint_decimal bitSize s \<longleftrightarrow> s \<noteq> [] \<and> list_all digit s \<and> dec_value s < 2 ^ bitSize"

section \<open>Package crypto/subtle\<close>





section \<open>Package io\<close>

type_synonym 'w Reader = "nat \<Rightarrow> 'w \<Rightarrow> (byte list \<times> error option) \<times> 'w"

partial_function (option) ReadAtLeast_loop ::
  "'w Reader \<Rightarrow> nat \<Rightarrow> byte list \<Rightarrow> 'w \<Rightarrow> ((byte list \<times> error option) \<times> 'w) option" where
  "ReadAtLeast_loop r mn buf w =
     (if length buf < mn then
        (case r (mn - length buf) w of
           ((bs, err), w') \<Rightarrow>
             if err = None then ReadAtLeast_loop r mn (buf @ take (mn - length buf) bs) w'
             else Some ((buf @ take (mn - length buf) bs, err), w'))
      else Some ((buf, None), w))"

definition ReadFull :: "'w Reader \<Rightarrow> nat \<Rightarrow> 'w \<Rightarrow> ((byte list \<times> error option) \<times> 'w) option" where
  "ReadFull r len w =
     (case ReadAtLeast_loop r len [] w of
        None \<Rightarrow> None
      | Some ((buf, err), w') \<Rightarrow>
          Some ((buf @ replicate (len - length buf) 0,
                 if length buf \<ge> len then None
                 else if length buf > 0 \<and> err = Some EOF then Some ErrUnexpectedEOF
                 else err), w'))"

section \<open>Package argon2\<close>

definition argon2ID :: string where
  "argon2ID = ''argon2id''"

definition argon2_Version :: int where
  "argon2_Version = 0x13"

definition MaxUint32 :: nat where
  "MaxUint32 = 4294967295"

type_synonym 'w SaltGenerator = "'w \<Rightarrow> ((error + byte list) \<times> 'w) option"

definition NewSaltGenerator :: "nat \<Rightarrow> 'w Reader \<Rightarrow> 'w SaltGenerator" where
  "NewSaltGenerator len randSource =
     (\<lambda>w. case ReadFull randSource len w of
             None \<Rightarrow> None
           | Some ((salt, Some err), w') \<Rightarrow> Some (Inl err, w')
           | Some ((salt, None), w') \<Rightarrow> Some (Inr salt, w'))"

record Parameters =
  Memory :: "32 word"
  Time :: "32 word"
  Parallelism :: "8 word"
  KeyLength :: "32 word"

record 'w hasher =
  params :: Parameters
  salt :: "'w SaltGenerator"

definition WithParameters :: "Parameters \<Rightarrow> 'w hasher \<Rightarrow> 'w hasher" where
  "WithParameters ps h = h\<lparr>params := ps\<rparr>"

definition WithSaltGenerator :: "'w SaltGenerator \<Rightarrow> 'w hasher \<Rightarrow> 'w hasher" where
  "WithSaltGenerator g h = h\<lparr>salt := g\<rparr>"

definition zero_hasher :: "'w hasher" where
  "zero_hasher = \<lparr>params = \<lparr>Memory = 0, Time = 0, Parallelism = 0, KeyLength = 0\<rparr>,
                  salt = (\<lambda>w. None)\<rparr>"

definition defaultOptions :: "'w Reader \<Rightarrow> ('w hasher \<Rightarrow> 'w hasher) list" where
  "defaultOptions rand_Reader =
     [WithParameters \<lparr>Memory = 46 * 1024, Time = 1, Parallelism = 1, KeyLength = 32\<rparr>,
      WithSaltGenerator (NewSaltGenerator 16 rand_Reader)]"

definition New :: "'w Reader \<Rightarrow> ('w hasher \<Rightarrow> 'w hasher) list \<Rightarrow> 'w hasher" where
  "New rand_Reader opts = foldl (\<lambda>h opt. opt h) zero_hasher (defaultOptions rand_Reader @ opts)"






definition Decode :: "string \<Rightarrow> (error + Format \<times> Parameters) option" where
  "Decode encoded =
     (case phc_Decode encoded of
        None \<Rightarrow> None
      | Some (Inl err) \<Rightarrow> Some (Inl (PHCDecodeError err))
      | Some (Inr decoded) \<Rightarrow>
          Some (if ID decoded \<noteq> argon2ID then Inl (UnsupportedHashingFunction (ID decoded))
                else if Version decoded \<noteq> Itoa argon2_Version
                  then Inl (UnsupportedVersion (Version decoded))
                else if length (Params decoded) \<noteq> 3
                  then Inl (InvalidParameterCount (length (Params decoded)))
                else if Name (Params decoded ! 0) \<noteq> ''m'' \<or> Name (Params decoded ! 1) \<noteq> ''t''
                        \<or> Name (Params decoded ! 2) \<noteq> ''p''
                  then Inl ParameterOrder
                else (case ParseUint (Value (Params decoded ! 0)) 32 of
                   Inl err \<Rightarrow> Inl (MemoryParameterError err)
                 | Inr memory \<Rightarrow>
                (case ParseUint (Value (Params decoded ! 1)) 32 of
                   Inl err \<Rightarrow> Inl (TimeParameterError err)
                 | Inr time \<Rightarrow>
                (case ParseUint (Value (Params decoded ! 2)) 8 of
                   Inl err \<Rightarrow> Inl (ParallelismParameterError err)
                 | Inr parallelism \<Rightarrow>
                     if length (Hash decoded) > MaxUint32
                     then Inl (HashTooLong (length (Hash decoded)))
                     else Inr (decoded,
                               \<lparr>Memory = ucast memory, Time = ucast time,
                                Parallelism = ucast parallelism,
                                KeyLength = of_nat (length (Hash decoded))\<rparr>))))))"


section \<open>Notions used to state the properties\<close>

text \<open>
  A base64 text is canonical when the bits of its last character that do not belong to a
  byte are zero; \<^verbatim>\<open>RawStdEncoding\<close> produces only canonical text. The predicates
  \<open>valid_id\<close> and \<open>valid_param\<close> say what the pattern \<open>format\<close> accepts as an identifier and
  as a parameter, \<open>shape\<close> what a text matched by \<open>format\<close> with the submatches \<open>C\<close> looks
  like. A record is \<open>version_like\<close> when its encoding has the form of an identifier and a
  version.\<close>

definition canonical :: "string \<Rightarrow> bool" where
  "canonical s =
     (if length s mod 4 = 2 then decodeMap (last s) AND 15 = 0
      else if length s mod 4 = 3 then decodeMap (last s) AND 3 = 0
      else True)"

definition valid_id :: "string \<Rightarrow> bool" where
  "valid_id s \<longleftrightarrow> 1 \<le> length s \<and> length s \<le> 32 \<and> list_all cls_name s"

definition valid_param :: "Parameter \<Rightarrow> bool" where
  "valid_param p \<longleftrightarrow> Name p \<noteq> [] \<and> list_all cls_name (Name p)
                     \<and> Value p \<noteq> [] \<and> list_all cls_value (Value p)"

definition param_text :: "Parameter \<Rightarrow> string" where
  "param_text p = Name p @ ''='' @ Value p"

definition is_param_text :: "string \<Rightarrow> bool" where
  "is_param_text w \<longleftrightarrow> (\<exists>p. valid_param p \<and> w = param_text p)"

definition is_params_text :: "string \<Rightarrow> bool" where
  "is_params_text w \<longleftrightarrow> (\<exists>ps. ps \<noteq> [] \<and> list_all valid_param ps \<and> w = write_params 0 ps)"

definition shape :: "caps \<Rightarrow> string \<Rightarrow> bool" where
  "shape C s \<longleftrightarrow>
     s = ''$'' @ C 1
         @ (if C 2 \<noteq> [] then ''$v='' @ C 2 else [])
         @ (if C 3 \<noteq> [] then ''$'' @ C 3 else [])
         @ (if C 4 \<noteq> [] then ''$'' @ C 4 @ (if C 5 \<noteq> [] then ''$'' @ C 5 else []) else [])
     \<and> valid_id (C 1) \<and> list_all digit (C 2) \<and> (C 3 = [] \<or> is_params_text (C 3))
     \<and> list_all cls_value (C 4) \<and> list_all cls_value (C 5) \<and> (C 4 = [] \<longrightarrow> C 5 = [])"

definition salt_text :: "string \<Rightarrow> string" where
  "salt_text s = (case FindStringSubmatch format s of None \<Rightarrow> [] | Some C \<Rightarrow> C 4)"

definition hash_text :: "string \<Rightarrow> string" where
  "hash_text s = (case FindStringSubmatch format s of None \<Rightarrow> [] | Some C \<Rightarrow> C 5)"

definition valid_Format :: "Format \<Rightarrow> bool" where
  "valid_Format r \<longleftrightarrow> valid_id (ID r) \<and> list_all digit (Version r)
      \<and> list_all valid_param (Params r) \<and> (Hash r \<noteq> [] \<longrightarrow> Salt r \<noteq> [])"

definition version_like :: "Format \<Rightarrow> bool" where
  "version_like r \<longleftrightarrow> Version r = [] \<and> length (Params r) = 1
      \<and> Name (hd (Params r)) = ''v'' \<and> list_all digit (Value (hd (Params r)))"

definition first :: "'a list \<Rightarrow> 'a option" where
  "first xs = (case xs of [] \<Rightarrow> None | x # _ \<Rightarrow> Some x)"

definition consumes :: "nat \<Rightarrow> regex \<Rightarrow> (string \<Rightarrow> bool) \<Rightarrow> bool" where
  "consumes n r Q \<longleftrightarrow>
     (\<forall>s c st. st \<in> set (rmatch n r s c) \<longrightarrow> snd st = c \<and> (\<exists>w. Q w \<and> s = w @ fst st))"

subsection \<open>A record whose hash does not fit a 32-bit length\<close>

text \<open>
  \<^verbatim>\<open>Decode\<close> derives the key length from the length of the decoded hash and refuses a
  hash of more than \<^verbatim>\<open>math.MaxUint32\<close> bytes. The record \<open>huge\<close> has a hash of \<open>2 ^ 32\<close>
  bytes and is otherwise a well-formed argon2id record.\<close>

definition huge_hash :: "byte list" where
  "huge_hash = replicate 4294967296 0"

definition huge :: Format where
  "huge = \<lparr>ID = ''argon2id'', Version = ''19'',
            Params = [\<lparr>Name = ''m'', Value = ''1''\<rparr>, \<lparr>Name = ''t'', Value = ''1''\<rparr>,
                      \<lparr>Name = ''p'', Value = ''1''\<rparr>],
            Salt = [0], Hash = huge_hash\<rparr>"

subsection \<open>Running time of the comparison\<close>



section \<open>Proofs\<close>

declare rmatch.simps [simp del]

declare decimal.simps [simp del]

lemma length_encodeStd: "length encodeStd = 64"
  by (simp add: encodeStd_def)

lemma distinct_encodeStd: "distinct encodeStd"
  by (simp add: encodeStd_def)

lemma decodeMap_encodeStd: "i < 64 \<Longrightarrow> decodeMap (encodeStd ! i) = of_nat i"
proof -
  assume i: "i < 64"
  have "map_of (zip encodeStd (map of_nat [0..<64] :: byte list)) (encodeStd ! i)
          = Some ((map of_nat [0..<64]) ! i)"
    using i by (intro map_of_zip_nth) (simp_all add: length_encodeStd distinct_encodeStd)
  then show ?thesis using i by (simp add: decodeMap_def del: upt_Suc)
qed

lemma decodeMap_valid:
  assumes "decodeMap x \<noteq> 255"
  shows "unat (decodeMap x) < 64 \<and> encodeStd ! unat (decodeMap x) = x"
proof -
  from assms obtain v where m: "map_of (zip encodeStd (map of_nat [0..<64] :: byte list)) x = Some v"
    and v: "decodeMap x = v"
    by (auto simp: decodeMap_def split: option.splits)
  from m have "(x, v) \<in> set (zip encodeStd (map of_nat [0..<64] :: byte list))"
    by (rule map_of_SomeD)
  then obtain i where i: "i < 64" "encodeStd ! i = x" "v = of_nat i"
    by (auto simp: in_set_zip length_encodeStd simp del: upt_Suc)
  then have "unat v = i" by (simp add: unat_of_nat)
  with i v show ?thesis by simp
qed

lemma unat_and_63: "unat ((v :: 64 word) AND 63) < 64"
proof -
  have "unat (v AND 63) \<le> unat (63 :: 64 word)"
    by (rule word_and_le1 [THEN word_le_nat_alt [THEN iffD1]])
  then show ?thesis by simp
qed

lemma byte_lt_64_mask: "unat (d :: byte) < 64 \<Longrightarrow> d AND 63 = d"
proof -
  assume "unat d < 64"
  then have "d < 2 ^ 6" by (simp add: word_less_nat_alt)
  then have "d AND mask 6 = d" by (rule less_mask_eq)
  then show ?thesis by (simp add: mask_eq_exp_minus_1)
qed

lemma m63: "(63 :: 'a::len word) = mask 6" by (simp add: mask_eq_exp_minus_1)
lemma m15: "(15 :: 'a::len word) = mask 4" by (simp add: mask_eq_exp_minus_1)
lemma m3: "(3 :: 'a::len word) = mask 2" by (simp add: mask_eq_exp_minus_1)

lemma SS2: "2 \<le> n \<Longrightarrow> Suc (Suc (n - 2)) = n" by simp

lemma assemble_sextets:
  fixes a b c :: byte
  defines "val \<equiv> (push_bit 16 (ucast a) OR push_bit 8 (ucast b) OR ucast c :: 64 word)"
  shows "assemble (ucast (drop_bit 18 val AND 63)) (ucast (drop_bit 12 val AND 63))
           (ucast (drop_bit 6 val AND 63)) (ucast (val AND 63)) = [a, b, c]"
  apply (simp add: val_def assemble_def Let_def m63)
  apply (intro conjI; rule bit_word_eqI)
    apply (auto simp: bit_simps SS2 dest: bit_imp_le_length)
  done

lemma assemble_sextets2:
  fixes a b :: byte
  defines "val \<equiv> (push_bit 16 (ucast a) OR push_bit 8 (ucast b) :: 64 word)"
  shows "take 2 (assemble (ucast (drop_bit 18 val AND 63)) (ucast (drop_bit 12 val AND 63))
           (ucast (drop_bit 6 val AND 63)) 0) = [a, b]"
  apply (simp add: val_def assemble_def Let_def m63)
  apply (intro conjI; rule bit_word_eqI)
    apply (auto simp: bit_simps SS2 dest: bit_imp_le_length)
  done

lemma assemble_sextets1:
  fixes a :: byte
  defines "val \<equiv> (push_bit 16 (ucast a) :: 64 word)"
  shows "take 1 (assemble (ucast (drop_bit 18 val AND 63)) (ucast (drop_bit 12 val AND 63)) 0 0) = [a]"
  apply (simp add: val_def assemble_def Let_def m63)
  apply (rule bit_word_eqI)
    apply (auto simp: bit_simps SS2 dest: bit_imp_le_length)
  done

lemma sextets_assemble:
  fixes d0 d1 d2 d3 :: byte
  assumes "assemble (d0 AND 63) (d1 AND 63) (d2 AND 63) (d3 AND 63) = [a, b, c]"
  defines "val \<equiv> (push_bit 16 (ucast a) OR push_bit 8 (ucast b) OR ucast c :: 64 word)"
  shows "drop_bit 18 val AND 63 = ucast (d0 AND 63)" "drop_bit 12 val AND 63 = ucast (d1 AND 63)"
     "drop_bit 6 val AND 63 = ucast (d2 AND 63)" "val AND 63 = ucast (d3 AND 63)"
  using assms(1)
     apply (simp_all add: val_def assemble_def Let_def m63)
     apply (rule bit_word_eqI; auto simp: bit_simps SS2 dest: bit_imp_le_length)+
  done

lemma low_bits_zero:
  fixes d :: byte
  assumes "d AND mask k = 0"
  shows "bit d n \<Longrightarrow> k \<le> n"
proof (rule ccontr)
  assume b: "bit d n" and "\<not> k \<le> n"
  then have "bit (d AND mask k) n" by (auto simp: bit_simps dest: bit_imp_le_length)
  with assms show False by simp
qed

lemma sextets_assemble1:
  fixes d0 d1 :: byte
  assumes z: "d1 AND 15 = 0"
  assumes "take 1 (assemble (d0 AND 63) (d1 AND 63) 0 0) = [a]"
  defines "val \<equiv> (push_bit 16 (ucast a) :: 64 word)"
  shows "drop_bit 18 val AND 63 = ucast (d0 AND 63)" "drop_bit 12 val AND 63 = ucast (d1 AND 63)"
  using assms(2) low_bits_zero[of d1 4] z
   apply (simp_all add: val_def assemble_def Let_def m63 m15)
   apply (rule bit_word_eqI; auto simp: bit_simps SS2 dest: bit_imp_le_length)+
  done

lemma sextets_assemble2:
  fixes d0 d1 d2 :: byte
  assumes z: "d2 AND 3 = 0"
  assumes "take 2 (assemble (d0 AND 63) (d1 AND 63) (d2 AND 63) 0) = [a, b]"
  defines "val \<equiv> (push_bit 16 (ucast a) OR push_bit 8 (ucast b) :: 64 word)"
  shows "drop_bit 18 val AND 63 = ucast (d0 AND 63)" "drop_bit 12 val AND 63 = ucast (d1 AND 63)"
     "drop_bit 6 val AND 63 = ucast (d2 AND 63)"
  using assms(2) low_bits_zero[of d2 2] z
   apply (simp_all add: val_def assemble_def Let_def m63 m3)
   apply (rule bit_word_eqI; auto simp: bit_simps SS2 dest: bit_imp_le_length)+
  done

lemma decodeMap_enc: "decodeMap (enc v) = ucast (v AND 63)"
  by (simp add: enc_def decodeMap_encodeStd unat_and_63 of_nat_unat)

lemma ucast_and_63_neq_255: "(ucast ((v :: 64 word) AND 63) :: byte) \<noteq> 255"
proof
  assume "(ucast (v AND 63) :: byte) = 255"
  then have "bit (ucast (v AND 63) :: byte) 7" by simp
  then show False by (simp add: bit_simps m63)
qed

lemma decodeMap_enc_valid: "decodeMap (enc v) \<noteq> 255"
  by (simp add: decodeMap_enc ucast_and_63_neq_255)

lemma decode_quad:
  assumes "decodeMap x0 \<noteq> 255" "decodeMap x1 \<noteq> 255" "decodeMap x2 \<noteq> 255" "decodeMap x3 \<noteq> 255"
  shows "decode si [] (x0 # x1 # x2 # x3 # src) =
     (case decode (Suc (Suc (Suc (Suc si)))) [] src of Inl e \<Rightarrow> Inl e
      | Inr dst \<Rightarrow> Inr (assemble (decodeMap x0) (decodeMap x1) (decodeMap x2) (decodeMap x3) @ dst))"
  using assms by (simp split: sum.splits)

lemma decode_pair:
  assumes "decodeMap x0 \<noteq> 255" "decodeMap x1 \<noteq> 255"
  shows "decode si [] [x0, x1] = Inr (take 1 (assemble (decodeMap x0) (decodeMap x1) 0 0))"
  using assms by simp

lemma decode_triple:
  assumes "decodeMap x0 \<noteq> 255" "decodeMap x1 \<noteq> 255" "decodeMap x2 \<noteq> 255"
  shows "decode si [] [x0, x1, x2]
           = Inr (take 2 (assemble (decodeMap x0) (decodeMap x1) (decodeMap x2) 0))"
  using assms by simp

lemma decode_EncodeToString: "decode si [] (EncodeToString bs) = Inr bs"
proof (induction bs arbitrary: si rule: EncodeToString.induct)
  case (1 a b c src)
  define val where "val = (push_bit 16 (ucast a) OR push_bit 8 (ucast b) OR ucast c :: 64 word)"
  have E: "EncodeToString (a # b # c # src)
      = enc (drop_bit 18 val) # enc (drop_bit 12 val) # enc (drop_bit 6 val) # enc val
        # EncodeToString src"
    by (simp add: val_def Let_def)
  have A: "assemble (decodeMap (enc (drop_bit 18 val))) (decodeMap (enc (drop_bit 12 val)))
             (decodeMap (enc (drop_bit 6 val))) (decodeMap (enc val)) = [a, b, c]"
    unfolding decodeMap_enc val_def by (rule assemble_sextets)
  show ?case
    unfolding E by (simp only: decode_quad [OF decodeMap_enc_valid decodeMap_enc_valid
          decodeMap_enc_valid decodeMap_enc_valid] A "1.IH") simp
next
  case (2 a b)
  define val where "val = (push_bit 16 (ucast a) OR push_bit 8 (ucast b) :: 64 word)"
  have E: "EncodeToString [a, b]
      = [enc (drop_bit 18 val), enc (drop_bit 12 val), enc (drop_bit 6 val)]"
    by (simp add: val_def Let_def)
  have A: "take 2 (assemble (decodeMap (enc (drop_bit 18 val))) (decodeMap (enc (drop_bit 12 val)))
             (decodeMap (enc (drop_bit 6 val))) 0) = [a, b]"
    unfolding decodeMap_enc val_def by (rule assemble_sextets2)
  show ?case
    unfolding E by (simp only: decode_triple [OF decodeMap_enc_valid decodeMap_enc_valid
          decodeMap_enc_valid] A)
next
  case (3 a)
  define val where "val = (push_bit 16 (ucast a) :: 64 word)"
  have E: "EncodeToString [a] = [enc (drop_bit 18 val), enc (drop_bit 12 val)]"
    by (simp add: val_def Let_def)
  have A: "take 1 (assemble (decodeMap (enc (drop_bit 18 val))) (decodeMap (enc (drop_bit 12 val)))
             0 0) = [a]"
    unfolding decodeMap_enc val_def by (rule assemble_sextets1)
  show ?case
    unfolding E by (simp only: decode_pair [OF decodeMap_enc_valid decodeMap_enc_valid] A)
next
  case 4
  show ?case by simp
qed

lemma DecodeString_EncodeToString: "DecodeString (EncodeToString bs) = Inr bs"
  by (simp add: DecodeString_def decode_EncodeToString)

lemma EncodeToString_eq_Nil: "EncodeToString bs = [] \<longleftrightarrow> bs = []"
  by (induction bs rule: EncodeToString.induct) (simp_all add: Let_def)

lemma list_all_cls_value_encodeStd: "list_all cls_value encodeStd"
  by code_simp

lemma enc_cls_value: "cls_value (enc v)"
proof -
  have "enc v \<in> set encodeStd"
    by (simp add: enc_def unat_and_63 length_encodeStd)
  with list_all_cls_value_encodeStd show ?thesis
    by (simp add: list_all_iff)
qed

lemma EncodeToString_cls_value: "list_all cls_value (EncodeToString bs)"
  by (induction bs rule: EncodeToString.induct) (simp_all add: Let_def enc_cls_value)

lemma decodeMap_mask: "decodeMap x \<noteq> 255 \<Longrightarrow> decodeMap x AND 63 = decodeMap x"
  using decodeMap_valid [of x] by (simp add: byte_lt_64_mask)

lemma unat_ucast_byte: "unat (ucast (d :: byte) :: 64 word) = unat d"
proof -
  have "uint (ucast d :: 64 word) = uint d"
    by (rule uint_up_ucast) (simp add: is_up)
  then show ?thesis by (metis unat_eq_nat_uint)
qed

lemma enc_ucast_decodeMap:
  assumes "decodeMap x \<noteq> 255" and "w AND 63 = ucast (decodeMap x AND 63)"
  shows "enc w = x"
proof -
  have "unat (w AND 63) = unat (decodeMap x)"
    using assms by (simp add: decodeMap_mask unat_ucast_byte)
  then show ?thesis
    using decodeMap_valid [OF assms(1)] by (simp add: enc_def)
qed

lemma canonical_quad: "canonical (x0 # x1 # x2 # x3 # s) = canonical s"
proof (cases "s = []")
  case True
  then show ?thesis by (simp add: canonical_def)
next
  case False
  have "length (x0 # x1 # x2 # x3 # s) = length s + 4" by simp
  then have "length (x0 # x1 # x2 # x3 # s) mod 4 = length s mod 4"
    by (simp only: mod_add_self2)
  moreover have "last (x0 # x1 # x2 # x3 # s) = last s" using False by simp
  ultimately show ?thesis by (simp only: canonical_def)
qed

lemma decode_all_valid:
  assumes "decode si dbuf s = Inr bs" and "\<forall>x\<in>set s. x \<noteq> CHR 0x0A \<and> x \<noteq> CHR 0x0D"
  shows "\<forall>x\<in>set s. decodeMap x \<noteq> 255"
  using assms
proof (induction s arbitrary: si dbuf bs)
  case Nil
  then show ?case by simp
next
  case (Cons x s)
  then show ?case
    by (auto split: if_splits sum.splits)
qed

lemma EncodeToString_decode_aux:
  assumes "length s \<le> n" "\<forall>x\<in>set s. decodeMap x \<noteq> 255" "canonical s" "decode si [] s = Inr bs"
  shows "EncodeToString bs = s"
  using assms
proof (induction n arbitrary: s si bs rule: less_induct)
  case (less n)
  consider "s = []" | x0 where "s = [x0]" | x0 x1 where "s = [x0, x1]"
    | x0 x1 x2 where "s = [x0, x1, x2]" | x0 x1 x2 x3 r where "s = x0 # x1 # x2 # x3 # r"
    by (metis list.exhaust)
  then show ?case
  proof cases
    case 1
    with less.prems show ?thesis by simp
  next
    case 2
    with less.prems show ?thesis by simp
  next
    case 3
    from less.prems 3 have v: "decodeMap x0 \<noteq> 255" "decodeMap x1 \<noteq> 255" by simp_all
    from less.prems 3 have z: "decodeMap x1 AND 15 = 0" by (simp add: canonical_def)
    from less.prems(4) 3 v have bs: "bs = take 1 (assemble (decodeMap x0) (decodeMap x1) 0 0)"
      by (simp add: decode_pair)
    then obtain a where a: "bs = [a]" by (simp add: assemble_def Let_def)
    with bs have t: "take 1 (assemble (decodeMap x0 AND 63) (decodeMap x1 AND 63) 0 0) = [a]"
      by (simp add: decodeMap_mask v)
    have "EncodeToString [a] = [x0, x1]"
      using sextets_assemble1 [OF z t] v
      by (simp add: Let_def enc_ucast_decodeMap)
    with a 3 show ?thesis by simp
  next
    case 4
    from less.prems 4 have v: "decodeMap x0 \<noteq> 255" "decodeMap x1 \<noteq> 255" "decodeMap x2 \<noteq> 255"
      by simp_all
    from less.prems 4 have z: "decodeMap x2 AND 3 = 0" by (simp add: canonical_def)
    from less.prems(4) 4 v have bs: "bs = take 2 (assemble (decodeMap x0) (decodeMap x1) (decodeMap x2) 0)"
      by (simp add: decode_triple)
    then obtain a b where a: "bs = [a, b]" by (simp add: assemble_def Let_def)
    with bs have t: "take 2 (assemble (decodeMap x0 AND 63) (decodeMap x1 AND 63) (decodeMap x2 AND 63) 0) = [a, b]"
      by (simp add: decodeMap_mask v)
    have "EncodeToString [a, b] = [x0, x1, x2]"
      using sextets_assemble2 [OF z t] v
      by (simp add: Let_def enc_ucast_decodeMap)
    with a 4 show ?thesis by simp
  next
    case 5
    from less.prems 5 have v: "decodeMap x0 \<noteq> 255" "decodeMap x1 \<noteq> 255" "decodeMap x2 \<noteq> 255"
      "decodeMap x3 \<noteq> 255" and vr: "\<forall>x\<in>set r. decodeMap x \<noteq> 255"
      by simp_all
    from less.prems 5 have cr: "canonical r" by (simp add: canonical_quad)
    from less.prems(4) 5 obtain dst where
      d: "decode (Suc (Suc (Suc (Suc si)))) [] r = Inr dst"
      and bs: "bs = assemble (decodeMap x0) (decodeMap x1) (decodeMap x2) (decodeMap x3) @ dst"
      by (simp only: decode_quad [OF v] split: sum.splits) auto
    obtain a b c where abc: "assemble (decodeMap x0) (decodeMap x1) (decodeMap x2) (decodeMap x3) = [a, b, c]"
      by (simp add: assemble_def Let_def)
    then have t: "assemble (decodeMap x0 AND 63) (decodeMap x1 AND 63) (decodeMap x2 AND 63)
        (decodeMap x3 AND 63) = [a, b, c]"
      by (simp add: decodeMap_mask v)
    have len: "length r < n" using less.prems(1) 5 by simp
    have IH: "EncodeToString dst = r"
      using less.IH [OF len _ vr cr d] by simp
    have "EncodeToString (a # b # c # dst) = x0 # x1 # x2 # x3 # r"
      using sextets_assemble [OF t] v IH
      by (simp add: Let_def enc_ucast_decodeMap)
    with bs abc 5 show ?thesis by simp
  qed
qed

lemma EncodeToString_DecodeString:
  assumes "DecodeString s = Inr bs" "list_all cls_value s" "canonical s"
  shows "EncodeToString bs = s"
proof -
  have nl: "\<forall>x\<in>set s. x \<noteq> CHR 0x0A \<and> x \<noteq> CHR 0x0D"
    using assms(2) by (auto simp: list_all_iff cls_value_def lower_def upper_def digit_def)
  from assms(1) have d: "decode 0 [] s = Inr bs" by (simp add: DecodeString_def)
  from decode_all_valid [OF d nl] show ?thesis
    using EncodeToString_decode_aux [OF le_refl _ assms(3) d] by simp
qed

lemma DecodeString_nonempty:
  assumes "DecodeString s = Inr bs" "s \<noteq> []" "list_all cls_value s"
  shows "bs \<noteq> []"
proof -
  have nl: "\<forall>x\<in>set s. x \<noteq> CHR 0x0A \<and> x \<noteq> CHR 0x0D"
    using assms(3) by (auto simp: list_all_iff cls_value_def lower_def upper_def digit_def)
  from assms(1) have d: "decode 0 [] s = Inr bs" by (simp add: DecodeString_def)
  from decode_all_valid [OF d nl] have v: "\<forall>x\<in>set s. decodeMap x \<noteq> 255" .
  consider x0 where "s = [x0]" | x0 x1 where "s = [x0, x1]"
    | x0 x1 x2 where "s = [x0, x1, x2]" | x0 x1 x2 x3 r where "s = x0 # x1 # x2 # x3 # r"
    using assms(2) by (metis list.exhaust)
  then show ?thesis
  proof cases
    case 1 with d v show ?thesis by simp
  next
    case 2 with d v show ?thesis by (auto simp: assemble_def Let_def)
  next
    case 3 with d v show ?thesis by (auto simp: assemble_def Let_def)
  next
    case 4 
    with v have vv: "decodeMap x0 \<noteq> 255" "decodeMap x1 \<noteq> 255" "decodeMap x2 \<noteq> 255"
      "decodeMap x3 \<noteq> 255" by simp_all
    from d 4 show ?thesis
      by (simp only: decode_quad [OF vv] split: sum.splits) (auto simp: assemble_def Let_def)
  qed
qed

lemma first_Nil [simp]: "first [] = None" by (simp add: first_def)
lemma first_Cons [simp]: "first (x # xs) = Some x" by (simp add: first_def)

lemma first_append: "first (xs @ ys) = (case first xs of None \<Rightarrow> first ys | Some x \<Rightarrow> Some x)"
  by (cases xs) simp_all

lemma first_concat_map:
  "first xs = Some m \<Longrightarrow> first (f m) = Some y \<Longrightarrow> first (concat (map f xs)) = Some y"
  by (cases xs) (simp_all add: first_append)

lemma first_map: "first (map f xs) = map_option f (first xs)"
  by (cases xs) simp_all

lemma first_in_set: "first xs = Some x \<Longrightarrow> x \<in> set xs"
  by (cases xs) auto

lemma first_None_iff: "first xs = None \<longleftrightarrow> xs = []"
  by (cases xs) auto

lemma concat_map_Nil: "(\<forall>m\<in>set xs. f m = []) \<Longrightarrow> concat (map f xs) = []"
  by (induction xs) simp_all

lemma in_rmatch_Chr:
  "st \<in> set (rmatch n (Chr a) s c) \<longleftrightarrow> s = a # fst st \<and> snd st = c"
  by (cases s) (auto simp: rmatch.simps(1))

lemma in_rmatch_Cls:
  "st \<in> set (rmatch n (Cls P) s c) \<longleftrightarrow> (\<exists>x. P x \<and> s = x # fst st) \<and> snd st = c"
  by (cases s) (auto simp: rmatch.simps(2))

lemma in_rmatch_Cat:
  "st \<in> set (rmatch n (Cat r1 r2) s c)
     \<longleftrightarrow> (\<exists>m\<in>set (rmatch n r1 s c). st \<in> set (rmatch n r2 (fst m) (snd m)))"
  by (auto simp: rmatch.simps(3))

lemma in_rmatch_Opt:
  "st \<in> set (rmatch n (Opt r) s c) \<longleftrightarrow> st \<in> set (rmatch n r s c) \<or> st = (s, c)"
  by (auto simp: rmatch.simps(4))

lemma in_rmatch_Cap:
  "st \<in> set (rmatch n (Cap k r) s c)
     \<longleftrightarrow> (\<exists>m\<in>set (rmatch n r s c).
            st = (fst m, (snd m)(k := take (length s - length (fst m)) s)))"
  by (auto simp: rmatch.simps(6))

lemma in_rmatch_Eol: "st \<in> set (rmatch n Eol s c) \<longleftrightarrow> s = [] \<and> st = ([], c)"
  by (auto simp: rmatch.simps(8))

lemma in_rmatch_Bol: "st \<in> set (rmatch n Bol s c) \<longleftrightarrow> length s = n \<and> st = (s, c)"
  by (auto simp: rmatch.simps(7))

lemma in_rmatch_Star:
  "st \<in> set (rmatch n (Star r) s c)
     \<longleftrightarrow> st = (s, c) \<or> (\<exists>m\<in>set (rmatch n r s c). length (fst m) < length s
                            \<and> st \<in> set (rmatch n (Star r) (fst m) (snd m)))"
  by (subst rmatch.simps(5)) auto

lemma consumesD:
  "consumes n r Q \<Longrightarrow> st \<in> set (rmatch n r s c) \<Longrightarrow> snd st = c \<and> (\<exists>w. Q w \<and> s = w @ fst st)"
  unfolding consumes_def by blast

lemma consumes_Chr: "consumes n (Chr a) (\<lambda>w. w = [a])"
  by (auto simp: consumes_def in_rmatch_Chr)

lemma consumes_Cls: "consumes n (Cls P) (\<lambda>w. \<exists>x. P x \<and> w = [x])"
  by (auto simp: consumes_def in_rmatch_Cls)

lemma consumes_Cat:
  assumes "consumes n r1 Q1" "consumes n r2 Q2"
  shows "consumes n (Cat r1 r2) (\<lambda>w. \<exists>u v. Q1 u \<and> Q2 v \<and> w = u @ v)"
  unfolding consumes_def
proof (intro allI impI)
  fix s c st
  assume "st \<in> set (rmatch n (Cat r1 r2) s c)"
  then obtain m where m: "m \<in> set (rmatch n r1 s c)" and st: "st \<in> set (rmatch n r2 (fst m) (snd m))"
    by (auto simp: in_rmatch_Cat)
  from consumesD [OF assms(1) m] obtain u where u: "snd m = c" "Q1 u" "s = u @ fst m" by auto
  from consumesD [OF assms(2) st] obtain v where v: "snd st = snd m" "Q2 v" "fst m = v @ fst st" by auto
  from u v show "snd st = c \<and> (\<exists>w. (\<exists>u v. Q1 u \<and> Q2 v \<and> w = u @ v) \<and> s = w @ fst st)"
    by auto
qed

lemma consumes_Opt:
  assumes "consumes n r Q"
  shows "consumes n (Opt r) (\<lambda>w. w = [] \<or> Q w)"
  using assms by (fastforce simp: consumes_def in_rmatch_Opt)

lemma consumes_Eps: "consumes n Eps (\<lambda>w. w = [])"
  by (simp add: consumes_def rmatch.simps(9))

lemma consumes_Star:
  assumes "consumes n r Q"
  shows "consumes n (Star r) (\<lambda>w. \<exists>ws. list_all Q ws \<and> w = concat ws)"
  unfolding consumes_def
proof (intro allI impI)
  fix s c st
  assume "st \<in> set (rmatch n (Star r) s c)"
  then show "snd st = c \<and> (\<exists>w. (\<exists>ws. list_all Q ws \<and> w = concat ws) \<and> s = w @ fst st)"
  proof (induction "length s" arbitrary: s rule: less_induct)
    case less
    from less.prems consider "st = (s, c)"
      | m where "m \<in> set (rmatch n r s c)" "length (fst m) < length s"
          "st \<in> set (rmatch n (Star r) (fst m) (snd m))"
      by (subst (asm) in_rmatch_Star) blast
    then show ?case
    proof cases
      case 1
      then have "snd st = c" "list_all Q []" "s = concat [] @ fst st" by simp_all
      then show ?thesis by blast
    next
      case 2
      from consumesD [OF assms 2(1)] obtain u where u: "snd m = c" "Q u" "s = u @ fst m" by auto
      from less.hyps [OF 2(2)] 2(3) u(1)
      obtain ws where ws: "snd st = c" "list_all Q ws" "fst m = concat ws @ fst st" by auto
      have "list_all Q (u # ws)" "s = concat (u # ws) @ fst st"
        using u ws by simp_all
      with ws(1) show ?thesis by blast
    qed
  qed
qed

lemma consumes_weaken: "consumes n r Q \<Longrightarrow> (\<And>w. Q w \<Longrightarrow> Q' w) \<Longrightarrow> consumes n r Q'"
  unfolding consumes_def by blast

lemma concat_singletons: "list_all (\<lambda>w. \<exists>x. P x \<and> w = [x]) ws \<Longrightarrow> list_all P (concat ws)"
  by (induction ws) auto

lemma consumes_Star_Cls: "consumes n (Star (Cls P)) (list_all P)"
  by (rule consumes_weaken [OF consumes_Star [OF consumes_Cls]]) (auto simp: concat_singletons)

lemma consumes_Plus_Cls: "consumes n (Plus (Cls P)) (\<lambda>w. w \<noteq> [] \<and> list_all P w)"
  unfolding Plus_def
  by (rule consumes_weaken [OF consumes_Cat [OF consumes_Cls consumes_Star_Cls]]) auto

lemma consumes_upto_rep_Cls: "consumes n (upto_rep (Cls P) k) (\<lambda>w. length w \<le> k \<and> list_all P w)"
proof (induction k)
  case 0
  show ?case unfolding upto_rep.simps by (rule consumes_weaken [OF consumes_Eps]) simp
next
  case (Suc k)
  show ?case
    unfolding upto_rep.simps
    by (rule consumes_weaken [OF consumes_Opt [OF consumes_Cat [OF consumes_Cls Suc]]]) auto
qed

lemma in_rmatch_Cap_consumes:
  assumes "consumes n r Q" "st \<in> set (rmatch n (Cap k r) s c)"
  shows "\<exists>w. Q w \<and> s = w @ fst st \<and> snd st = c(k := w)"
proof -
  from assms(2) obtain m where m: "m \<in> set (rmatch n r s c)"
    and st: "st = (fst m, (snd m)(k := take (length s - length (fst m)) s))"
    by (auto simp: in_rmatch_Cap)
  from consumesD [OF assms(1) m] obtain w where w: "snd m = c" "Q w" "s = w @ fst m" by auto
  then have "take (length s - length (fst m)) s = w" by simp
  with st w show ?thesis by auto
qed

lemma id_re_sound:
  assumes "st \<in> set (rmatch n id_re s c)"
  shows "\<exists>idv. valid_id idv \<and> s = ''$'' @ idv @ fst st \<and> snd st = c(1 := idv)"
proof -
  have cons: "consumes n (Cat (Cls cls_name) (upto_rep (Cls cls_name) 31))
                (\<lambda>w. valid_id w)"
    by (rule consumes_weaken [OF consumes_Cat [OF consumes_Cls consumes_upto_rep_Cls]])
       (auto simp: valid_id_def)
  from assms obtain m where m: "m \<in> set (rmatch n (Chr CHR ''$'') s c)"
    and st: "st \<in> set (rmatch n (Cap 1 (Cat (Cls cls_name) (upto_rep (Cls cls_name) 31)))
                         (fst m) (snd m))"
    by (auto simp: id_re_def in_rmatch_Cat)
  from m have s: "s = CHR ''$'' # fst m" "snd m = c" by (auto simp: in_rmatch_Chr)
  from in_rmatch_Cap_consumes [OF cons st] s show ?thesis by auto
qed

lemma consumes_digits: "consumes n (Plus (Cls digit)) (\<lambda>w. w \<noteq> [] \<and> list_all digit w)"
  by (rule consumes_Plus_Cls)

lemma version_group_sound:
  assumes "st \<in> set (rmatch n version_group s c)"
  shows "\<exists>ver. ver \<noteq> [] \<and> list_all digit ver \<and> s = ''$v='' @ ver @ fst st
                          \<and> snd st = c(2 := ver)"
proof -
  from assms obtain m1 m2 m3 where
    m1: "m1 \<in> set (rmatch n (Chr CHR ''$'') s c)" and
    m2: "m2 \<in> set (rmatch n (Chr CHR ''v'') (fst m1) (snd m1))" and
    m3: "m3 \<in> set (rmatch n (Chr CHR ''='') (fst m2) (snd m2))" and
    st: "st \<in> set (rmatch n (Cap 2 (Plus (Cls digit))) (fst m3) (snd m3))"
    by (auto simp: version_group_def in_rmatch_Cat)
  from m1 m2 m3 have s: "s = ''$v='' @ fst m3" "snd m3 = c"
    by (auto simp: in_rmatch_Chr)
  from in_rmatch_Cap_consumes [OF consumes_digits st] s show ?thesis by auto
qed

lemma version_re_sound:
  assumes "st \<in> set (rmatch n version_re s c)"
  shows "st = (s, c) \<or> (\<exists>ver. ver \<noteq> [] \<and> list_all digit ver \<and> s = ''$v='' @ ver @ fst st
                          \<and> snd st = c(2 := ver))"
  using assms version_group_sound [of st n s c]
  by (auto simp: version_re_def in_rmatch_Opt)

lemma consumes_param_re: "consumes n param_re is_param_text"
  unfolding param_re_def
proof (rule consumes_weaken [OF consumes_Cat [OF consumes_Plus_Cls
          consumes_Cat [OF consumes_Chr consumes_Plus_Cls]]])
  fix w
  assume "\<exists>u v. (u \<noteq> [] \<and> list_all cls_name u) \<and>
             (\<exists>u' v'. u' = ''='' \<and> (v' \<noteq> [] \<and> list_all cls_value v') \<and> v = u' @ v') \<and> w = u @ v"
  then obtain u v' where "u \<noteq> []" "list_all cls_name u" "v' \<noteq> []" "list_all cls_value v'"
    "w = u @ ''='' @ v'" by auto
  then have "valid_param \<lparr>Name = u, Value = v'\<rparr>" "w = param_text \<lparr>Name = u, Value = v'\<rparr>"
    by (simp_all add: valid_param_def param_text_def)
  then show "is_param_text w" unfolding is_param_text_def by blast
qed

lemma write_params_Suc:
  "write_params (Suc i) ps = concat (map (\<lambda>p. '','' @ param_text p) ps)"
  by (induction ps arbitrary: i) (simp_all add: param_text_def)

lemma write_params_0_Cons: "write_params 0 (p # ps) = param_text p @ write_params (Suc 0) ps"
  by (simp add: param_text_def)

lemma more_params:
  "list_all (\<lambda>w. \<exists>u v. u = '','' \<and> is_param_text v \<and> w = u @ v) ws
     \<Longrightarrow> \<exists>ps. list_all valid_param ps \<and> concat ws = write_params (Suc 0) ps"
proof (induction ws)
  case Nil
  have "list_all valid_param []" "concat [] = write_params (Suc 0) []" by simp_all
  then show ?case by blast
next
  case (Cons w ws)
  then obtain ps where ps: "list_all valid_param ps" "concat ws = write_params (Suc 0) ps"
    by auto
  from Cons.prems obtain p where p: "valid_param p" "w = '','' @ param_text p"
    by (auto simp: is_param_text_def)
  have "list_all valid_param (p # ps)" "concat (w # ws) = write_params (Suc 0) (p # ps)"
    using p ps by (simp_all add: write_params_Suc param_text_def)
  then show ?case by blast
qed

lemma consumes_params:
  "consumes n (Cat param_re (Star (Cat (Chr CHR '','') param_re))) is_params_text"
proof (rule consumes_weaken [OF consumes_Cat [OF consumes_param_re
          consumes_Star [OF consumes_Cat [OF consumes_Chr consumes_param_re]]]])
  fix w
  assume "\<exists>u v. is_param_text u \<and>
            (\<exists>ws. list_all (\<lambda>w. \<exists>u v. u = '','' \<and> is_param_text v \<and> w = u @ v) ws \<and> v = concat ws)
            \<and> w = u @ v"
  then obtain p ws where p: "valid_param p" and
    ws: "list_all (\<lambda>w. \<exists>u v. u = '','' \<and> is_param_text v \<and> w = u @ v) ws" and
    w: "w = param_text p @ concat ws"
    by (auto simp: is_param_text_def)
  from more_params [OF ws] obtain ps where ps: "list_all valid_param ps"
    "concat ws = write_params (Suc 0) ps" by auto
  have "p # ps \<noteq> []" "list_all valid_param (p # ps)" "w = write_params 0 (p # ps)"
    using p ps w by (simp_all add: write_params_Suc param_text_def)
  then show "is_params_text w" unfolding is_params_text_def by blast
qed

lemma params_group_sound:
  assumes "st \<in> set (rmatch n params_group s c)"
  shows "\<exists>ps. is_params_text ps \<and> s = ''$'' @ ps @ fst st \<and> snd st = c(3 := ps)"
proof -
  from assms obtain m1 where
    m1: "m1 \<in> set (rmatch n (Chr CHR ''$'') s c)" and
    st: "st \<in> set (rmatch n (Cap 3 (Cat param_re (Star (Cat (Chr CHR '','') param_re))))
                      (fst m1) (snd m1))"
    by (auto simp: params_group_def in_rmatch_Cat)
  from m1 have s: "s = ''$'' @ fst m1" "snd m1 = c"
    by (auto simp: in_rmatch_Chr)
  from in_rmatch_Cap_consumes [OF consumes_params st] s show ?thesis by auto
qed

lemma params_re_sound:
  assumes "st \<in> set (rmatch n params_re s c)"
  shows "st = (s, c) \<or> (\<exists>ps. is_params_text ps \<and> s = ''$'' @ ps @ fst st \<and> snd st = c(3 := ps))"
  using assms params_group_sound [of st n s c]
  by (auto simp: params_re_def in_rmatch_Opt)

lemma consumes_value: "consumes n (Plus (Cls cls_value)) (\<lambda>w. w \<noteq> [] \<and> list_all cls_value w)"
  by (rule consumes_Plus_Cls)

lemma hash_group_sound:
  assumes "st \<in> set (rmatch n hash_group s c)"
  shows "\<exists>hash. hash \<noteq> [] \<and> list_all cls_value hash \<and> s = ''$'' @ hash @ fst st
            \<and> snd st = c(5 := hash)"
proof -
  from assms obtain m1 where
    m1: "m1 \<in> set (rmatch n (Chr CHR ''$'') s c)" and
    st: "st \<in> set (rmatch n (Cap 5 (Plus (Cls cls_value))) (fst m1) (snd m1))"
    by (auto simp: hash_group_def in_rmatch_Cat)
  from m1 have s: "s = ''$'' @ fst m1" "snd m1 = c"
    by (auto simp: in_rmatch_Chr)
  from in_rmatch_Cap_consumes [OF consumes_value st] s show ?thesis by auto
qed

lemma salt_hash_group_sound:
  assumes "st \<in> set (rmatch n salt_hash_group s c)"
  shows "\<exists>salt. salt \<noteq> [] \<and> list_all cls_value salt
           \<and> (s = ''$'' @ salt @ fst st \<and> snd st = c(4 := salt)
               \<or> (\<exists>hash. hash \<noteq> [] \<and> list_all cls_value hash
                     \<and> s = ''$'' @ salt @ ''$'' @ hash @ fst st
                     \<and> snd st = c(4 := salt, 5 := hash)))"
proof -
  from assms obtain m1 m2 where
    m1: "m1 \<in> set (rmatch n (Chr CHR ''$'') s c)" and
    m2: "m2 \<in> set (rmatch n (Cap 4 (Plus (Cls cls_value))) (fst m1) (snd m1))" and
    st: "st \<in> set (rmatch n (Opt hash_group) (fst m2) (snd m2))"
    by (auto simp: salt_hash_group_def in_rmatch_Cat)
  from m1 have s: "s = ''$'' @ fst m1" "snd m1 = c"
    by (auto simp: in_rmatch_Chr)
  from in_rmatch_Cap_consumes [OF consumes_value m2] s obtain salt where
    salt: "salt \<noteq> []" "list_all cls_value salt" "s = ''$'' @ salt @ fst m2" "snd m2 = c(4 := salt)"
    by auto
  from st consider "st = m2" | "st \<in> set (rmatch n hash_group (fst m2) (snd m2))"
    by (auto simp: in_rmatch_Opt)
  then show ?thesis
  proof cases
    case 1
    with salt show ?thesis by auto
  next
    case 2
    from hash_group_sound [OF 2] salt
    obtain hash where "hash \<noteq> []" "list_all cls_value hash"
      "s = ''$'' @ salt @ ''$'' @ hash @ fst st" "snd st = c(4 := salt, 5 := hash)"
      by auto
    with salt show ?thesis by blast
  qed
qed

lemma salt_hash_re_sound:
  assumes "st \<in> set (rmatch n salt_hash_re s c)"
  shows "st = (s, c)
     \<or> (\<exists>salt. salt \<noteq> [] \<and> list_all cls_value salt
           \<and> (s = ''$'' @ salt @ fst st \<and> snd st = c(4 := salt)
               \<or> (\<exists>hash. hash \<noteq> [] \<and> list_all cls_value hash
                     \<and> s = ''$'' @ salt @ ''$'' @ hash @ fst st
                     \<and> snd st = c(4 := salt, 5 := hash))))"
  using assms salt_hash_group_sound [of st n s c]
  by (auto simp: salt_hash_re_def in_rmatch_Opt)

lemma is_params_text_nonempty: "is_params_text w \<Longrightarrow> w \<noteq> []"
  by (auto simp: is_params_text_def valid_param_def neq_Nil_conv)

lemma format_sound:
  assumes "st \<in> set (rmatch n format s (\<lambda>_. []))"
  shows "length s = n \<and> fst st = [] \<and> shape (snd st) s"
proof -
  from assms obtain m0 m1 m2 m3 m4 where
    m0: "m0 \<in> set (rmatch n Bol s (\<lambda>_. []))" and
    m1: "m1 \<in> set (rmatch n id_re (fst m0) (snd m0))" and
    m2: "m2 \<in> set (rmatch n version_re (fst m1) (snd m1))" and
    m3: "m3 \<in> set (rmatch n params_re (fst m2) (snd m2))" and
    m4: "m4 \<in> set (rmatch n salt_hash_re (fst m3) (snd m3))" and
    st: "st \<in> set (rmatch n Eol (fst m4) (snd m4))"
    unfolding format_def in_rmatch_Cat by blast
  from m0 have 0: "length s = n" "fst m0 = s" "snd m0 = (\<lambda>_. [])"
    by (auto simp: in_rmatch_Bol)
  from id_re_sound [OF m1] 0 obtain idv where
    1: "valid_id idv" "s = ''$'' @ idv @ fst m1" "snd m1 = (\<lambda>_. [])(1 := idv)"
    by auto
  from st have 5: "fst m4 = []" "fst st = []" "snd st = snd m4"
    by (auto simp: in_rmatch_Eol)
  note v = version_re_sound [OF m2] and p = params_re_sound [OF m3]
    and sh = salt_hash_re_sound [OF m4]
  have "shape (snd m4) s"
    using v p sh 1 5(1)
    by (elim disjE exE conjE) (auto simp: shape_def is_params_text_nonempty)
  with 0 5 show ?thesis by simp
qed

lemma FindStringSubmatch_format_sound:
  assumes "FindStringSubmatch format text = Some C"
  shows "shape C text"
proof -
  from assms obtain st tl where
    c: "concat (map (\<lambda>i. rmatch (length text) (Cap 0 format) (drop i text) (\<lambda>_. []))
           [0..<Suc (length text)]) = st # tl" and C: "C = snd st"
    by (auto simp: FindStringSubmatch_def split: list.splits)
  from c have "st \<in> set (concat (map (\<lambda>i. rmatch (length text) (Cap 0 format) (drop i text)
           (\<lambda>_. [])) [0..<Suc (length text)]))" by simp
  then obtain i where i: "st \<in> set (rmatch (length text) (Cap 0 format) (drop i text) (\<lambda>_. []))"
    by (auto simp del: upt_Suc)
  then obtain m where m: "m \<in> set (rmatch (length text) format (drop i text) (\<lambda>_. []))"
    and st: "snd st = (snd m)(0 := take (length (drop i text) - length (fst m)) (drop i text))"
    by (auto simp: in_rmatch_Cap)
  from format_sound [OF m] have l: "length (drop i text) = length text"
    and sh: "shape (snd m) (drop i text)" by simp_all
  from l have "i = 0 \<or> length text = 0" by (simp only: length_drop) arith
  then have "i = 0 \<or> text = []" by simp
  then have "drop i text = text" by auto
  with sh have "shape (snd m) text" by simp
  then show ?thesis unfolding C st by (simp add: shape_def)
qed

lemma cls_name_cases:
  "cls_name x \<Longrightarrow> x \<noteq> CHR '','' \<and> x \<noteq> CHR ''='' \<and> x \<noteq> CHR ''$'' \<and> cls_value x"
  by (auto simp: cls_name_def cls_value_def lower_def upper_def digit_def)

lemma cls_value_cases:
  "cls_value x \<Longrightarrow> x \<noteq> CHR '','' \<and> x \<noteq> CHR ''='' \<and> x \<noteq> CHR ''$''"
  by (auto simp: cls_value_def lower_def upper_def digit_def)

lemma digit_cases: "digit x \<Longrightarrow> cls_name x \<and> cls_value x"
  by (auto simp: cls_name_def cls_value_def)

lemma Split_no_sep: "sep \<notin> set w \<Longrightarrow> Split w sep = [w]"
  by (induction w) auto

lemma Split_append_sep: "sep \<notin> set w \<Longrightarrow> Split (w @ sep # rest) sep = w # Split rest sep"
  by (induction w) auto

lemma valid_param_no_seps:
  assumes "valid_param p"
  shows "CHR '','' \<notin> set (param_text p)" "CHR ''='' \<notin> set (Name p)" "CHR ''='' \<notin> set (Value p)"
  using assms cls_name_cases cls_value_cases
  by (auto simp: valid_param_def param_text_def list_all_iff)

lemma Split_param_text: "valid_param p \<Longrightarrow> Split (param_text p) CHR ''='' = [Name p, Value p]"
  using valid_param_no_seps [of p]
  by (simp add: param_text_def Split_append_sep Split_no_sep)

lemma Split_params:
  "list_all valid_param (p # ps) \<Longrightarrow>
     Split (write_params 0 (p # ps)) CHR '','' = map param_text (p # ps)"
proof (induction ps arbitrary: p)
  case Nil
  then show ?case
    using valid_param_no_seps(1) [of p] by (simp add: Split_no_sep param_text_def)
next
  case (Cons q ps)
  have "write_params 0 (p # q # ps) = param_text p @ CHR '','' # write_params 0 (q # ps)"
    by (simp add: param_text_def write_params_Suc)
  moreover have "CHR '','' \<notin> set (param_text p)"
    using Cons.prems valid_param_no_seps(1) [of p] by simp
  ultimately show ?case
    using Cons by (simp add: Split_append_sep del: write_params.simps)
qed

lemma parse_params_texts:
  "list_all valid_param ps \<Longrightarrow> parse_params (map param_text ps) = Some ps"
  by (induction ps) (simp_all add: Split_param_text)

lemma parse_params_Split:
  assumes "is_params_text w"
  shows "\<exists>ps. ps \<noteq> [] \<and> list_all valid_param ps \<and> w = write_params 0 ps
            \<and> parse_params (Split w CHR '','') = Some ps"
proof -
  from assms obtain ps where ps: "ps \<noteq> []" "list_all valid_param ps" "w = write_params 0 ps"
    by (auto simp: is_params_text_def)
  then obtain q qs where "ps = q # qs" by (cases ps) auto
  with ps have "parse_params (Split w CHR '','') = Some ps"
    using Split_params [of q qs] parse_params_texts [of ps] by simp
  with ps show ?thesis by blast
qed


lemma encode_decode_accepted:
  assumes dec: "UnmarshalText f0 s = Some (None, f)"
    and can: "canonical (salt_text s)" "canonical (hash_text s)"
  shows "String f = s"
proof -
  from dec obtain C where C: "FindStringSubmatch format s = Some C"
    by (auto simp: UnmarshalText_def split: option.splits)
  from FindStringSubmatch_format_sound [OF C] have sh: "shape C s" .
  from can C have can': "canonical (C 4)" "canonical (C 5)"
    by (simp_all add: salt_text_def hash_text_def)
  from sh have s: "s = ''$'' @ C 1
         @ (if C 2 \<noteq> [] then ''$v='' @ C 2 else [])
         @ (if C 3 \<noteq> [] then ''$'' @ C 3 else [])
         @ (if C 4 \<noteq> [] then ''$'' @ C 4 @ (if C 5 \<noteq> [] then ''$'' @ C 5 else []) else [])"
    and p3: "C 3 = [] \<or> is_params_text (C 3)"
    and v4: "list_all cls_value (C 4)" and v5: "list_all cls_value (C 5)"
    and e45: "C 4 = [] \<longrightarrow> C 5 = []"
    by (simp_all add: shape_def)
  obtain ps where ps: "(if length (C 3) > 0 then parse_params (Split (C 3) CHR '','') else Some [])
     = Some ps" and wp: "(if length ps > 0 then ''$'' @ write_params 0 ps else [])
         = (if C 3 \<noteq> [] then ''$'' @ C 3 else [])"
    using p3 parse_params_Split [of "C 3"] by (cases "C 3 = []") auto
  have ID: "ID f = C 1" and Ver: "Version f = C 2" and Par: "Params f = ps"
    using dec C ps by (auto simp: UnmarshalText_def Let_def split: sum.splits if_splits)
  have salt: "(if length (Salt f) > 0 then
          ''$'' @ EncodeToString (Salt f)
          @ (if length (Hash f) > 0 then ''$'' @ EncodeToString (Hash f) else [])
        else []) = (if C 4 \<noteq> [] then ''$'' @ C 4 @ (if C 5 \<noteq> [] then ''$'' @ C 5 else []) else [])"
  proof (cases "C 4 = []")
    case True
    with dec C ps have "Salt f = []" "Hash f = []"
      by (auto simp: UnmarshalText_def Let_def)
    with True show ?thesis by simp
  next
    case False
    with dec C ps obtain salt where salt: "DecodeString (C 4) = Inr salt" "Salt f = salt"
      by (auto simp: UnmarshalText_def Let_def split: sum.splits if_splits)
    from EncodeToString_DecodeString [OF salt(1) v4 can'(1)]
      DecodeString_nonempty [OF salt(1) False v4]
    have 4: "EncodeToString (Salt f) = C 4" "Salt f \<noteq> []" using salt(2) by simp_all
    show ?thesis
    proof (cases "C 5 = []")
      case True
      with dec C ps False have "Hash f = []"
        by (auto simp: UnmarshalText_def Let_def split: sum.splits if_splits)
      with 4 True False show ?thesis by simp
    next
      case h: False
      with dec C ps False obtain hash where hash: "DecodeString (C 5) = Inr hash" "Hash f = hash"
        by (auto simp: UnmarshalText_def Let_def split: sum.splits if_splits)
      from EncodeToString_DecodeString [OF hash(1) v5 can'(2)]
        DecodeString_nonempty [OF hash(1) h v5]
      have "EncodeToString (Hash f) = C 5" "Hash f \<noteq> []" using hash(2) by simp_all
      with 4 h False show ?thesis by simp
    qed
  qed
  have "String f = ''$'' @ C 1
         @ (if C 2 \<noteq> [] then ''$v='' @ C 2 else [])
         @ (if C 3 \<noteq> [] then ''$'' @ C 3 else [])
         @ (if C 4 \<noteq> [] then ''$'' @ C 4 @ (if C 5 \<noteq> [] then ''$'' @ C 5 else []) else [])"
    unfolding String_def ID Ver Par salt wp ..
  with s show ?thesis by simp
qed

lemma first_Chr: "first (rmatch n (Chr a) (a # s) c) = Some (s, c)"
  by (simp add: rmatch.simps(1))

lemma rmatch_Chr_fail: "s = [] \<or> hd s \<noteq> a \<Longrightarrow> rmatch n (Chr a) s c = []"
  by (cases s) (auto simp: rmatch.simps(1))

lemma rmatch_Cls_fail: "s = [] \<or> \<not> P (hd s) \<Longrightarrow> rmatch n (Cls P) s c = []"
  by (cases s) (auto simp: rmatch.simps(2))

lemma first_Cat:
  "first (rmatch n r1 s c) = Some m \<Longrightarrow> first (rmatch n r2 (fst m) (snd m)) = Some y
     \<Longrightarrow> first (rmatch n (Cat r1 r2) s c) = Some y"
  by (simp add: rmatch.simps(3) first_concat_map)

lemma rmatch_Cat_fail1: "rmatch n r1 s c = [] \<Longrightarrow> rmatch n (Cat r1 r2) s c = []"
  by (simp add: rmatch.simps(3))

lemma first_Opt: "first (rmatch n r s c) = Some y \<Longrightarrow> first (rmatch n (Opt r) s c) = Some y"
  by (simp add: rmatch.simps(4) first_append)

lemma rmatch_Opt_skip: "rmatch n r s c = [] \<Longrightarrow> rmatch n (Opt r) s c = [(s, c)]"
  by (simp add: rmatch.simps(4))

lemma rmatch_Cat_Opt_skip:
  "(\<forall>m\<in>set (rmatch n g s c). rmatch n k (fst m) (snd m) = [])
     \<Longrightarrow> rmatch n (Cat (Opt g) k) s c = rmatch n k s c"
  by (simp add: rmatch.simps(3,4) concat_map_Nil)

lemma first_Cap:
  "first (rmatch n r (w @ rest) c) = Some (rest, c')
     \<Longrightarrow> first (rmatch n (Cap k r) (w @ rest) c) = Some (rest, c'(k := w))"
  by (simp add: rmatch.simps(6) first_map)

lemma first_Star_step:
  "first (rmatch n r s c) = Some m \<Longrightarrow> length (fst m) < length s
     \<Longrightarrow> first (rmatch n (Star r) (fst m) (snd m)) = Some y
     \<Longrightarrow> first (rmatch n (Star r) s c) = Some y"
  by (subst rmatch.simps(5)) (simp add: first_append first_concat_map)

lemma rmatch_Star_stop: "rmatch n r s c = [] \<Longrightarrow> rmatch n (Star r) s c = [(s, c)]"
  by (subst rmatch.simps(5)) simp

lemma first_Star_Cls:
  "list_all P w \<Longrightarrow> rest = [] \<or> \<not> P (hd rest)
     \<Longrightarrow> first (rmatch n (Star (Cls P)) (w @ rest) c) = Some (rest, c)"
proof (induction w)
  case Nil
  then show ?case by (simp add: rmatch_Star_stop rmatch_Cls_fail)
next
  case (Cons x w)
  have 1: "first (rmatch n (Cls P) ((x # w) @ rest) c) = Some (w @ rest, c)"
    using Cons.prems by (simp add: rmatch.simps(2))
  have 2: "first (rmatch n (Star (Cls P)) (w @ rest) c) = Some (rest, c)"
    using Cons by simp
  show ?case
    by (rule first_Star_step [OF 1]) (simp_all add: 2)
qed

lemma first_Plus_Cls:
  "w \<noteq> [] \<Longrightarrow> list_all P w \<Longrightarrow> rest = [] \<or> \<not> P (hd rest)
     \<Longrightarrow> first (rmatch n (Plus (Cls P)) (w @ rest) c) = Some (rest, c)"
proof (cases w)
  case Nil
  then show "w \<noteq> [] \<Longrightarrow> ?thesis" by simp
next
  case (Cons x w')
  assume a: "list_all P w" "rest = [] \<or> \<not> P (hd rest)"
  have 1: "first (rmatch n (Cls P) (w @ rest) c) = Some (w' @ rest, c)"
    using a Cons by (simp add: rmatch.simps(2))
  have 2: "first (rmatch n (Star (Cls P)) (w' @ rest) c) = Some (rest, c)"
    using a Cons by (intro first_Star_Cls) simp_all
  show ?thesis unfolding Plus_def
    by (rule first_Cat [OF 1]) (simp add: 2)
qed

lemma first_upto_rep_Cls:
  "list_all P w \<Longrightarrow> length w \<le> k \<Longrightarrow> rest = [] \<or> \<not> P (hd rest)
     \<Longrightarrow> first (rmatch n (upto_rep (Cls P) k) (w @ rest) c) = Some (rest, c)"
proof (induction k arbitrary: w)
  case 0
  then show ?case by (simp add: rmatch.simps(9))
next
  case (Suc k)
  show ?case
  proof (cases w)
    case Nil
    have "rmatch n (Cat (Cls P) (upto_rep (Cls P) k)) rest c = []"
      using Suc.prems by (intro rmatch_Cat_fail1 rmatch_Cls_fail) simp
    then show ?thesis using Nil by (simp add: rmatch_Opt_skip)
  next
    case (Cons x w')
    have 1: "first (rmatch n (Cls P) (w @ rest) c) = Some (w' @ rest, c)"
      using Suc.prems Cons by (simp add: rmatch.simps(2))
    have 2: "first (rmatch n (upto_rep (Cls P) k) (w' @ rest) c) = Some (rest, c)"
      using Suc.prems Cons by (intro Suc.IH) simp_all
    have "first (rmatch n (Cat (Cls P) (upto_rep (Cls P) k)) (w @ rest) c) = Some (rest, c)"
      by (rule first_Cat [OF 1]) (simp add: 2)
    then show ?thesis by (simp add: first_Opt)
  qed
qed

lemma not_cls_value_dollar: "\<not> cls_value CHR ''$''" "\<not> cls_value CHR '',''" "\<not> cls_value CHR ''=''"
  "\<not> cls_name CHR ''$''" "\<not> cls_name CHR ''=''" "\<not> digit CHR ''$''" "\<not> digit CHR '',''"
  by (simp_all add: cls_value_def cls_name_def lower_def upper_def digit_def)

lemma rmatch_Cat_Chr: "rmatch n (Cat (Chr a) r) (a # s) c = rmatch n r s c"
  by (simp add: rmatch.simps(1,3))

lemma first_hash_group:
  assumes "b \<noteq> []" "list_all cls_value b"
  shows "first (rmatch n hash_group (''$'' @ b) c) = Some ([], c(5 := b))"
proof -
  have "first (rmatch n (Plus (Cls cls_value)) (b @ []) c) = Some ([], c)"
    using assms by (intro first_Plus_Cls) simp_all
  then have "first (rmatch n (Cap 5 (Plus (Cls cls_value))) (b @ []) c) = Some ([], c(5 := b))"
    by (rule first_Cap)
  then show ?thesis
    by (simp add: hash_group_def rmatch_Cat_Chr)
qed

lemma first_tail_none: "first (rmatch n (Cat salt_hash_re Eol) [] c) = Some ([], c)"
  by (simp add: salt_hash_re_def salt_hash_group_def rmatch.simps(1,3,4,8))

lemma first_tail_salt:
  assumes "a \<noteq> []" "list_all cls_value a"
  shows "first (rmatch n (Cat salt_hash_re Eol) (''$'' @ a) c) = Some ([], c(4 := a))"
proof -
  have "first (rmatch n (Plus (Cls cls_value)) (a @ []) c) = Some ([], c)"
    using assms by (intro first_Plus_Cls) simp_all
  then have 1: "first (rmatch n (Cap 4 (Plus (Cls cls_value))) a c) = Some ([], c(4 := a))"
    using first_Cap [of n "Plus (Cls cls_value)" a "[]" c c 4] by simp
  have 2: "first (rmatch n (Opt hash_group) [] (c(4 := a))) = Some ([], c(4 := a))"
    by (simp add: hash_group_def rmatch.simps(1,3,4))
  have 3: "first (rmatch n (Cat (Cap 4 (Plus (Cls cls_value))) (Opt hash_group)) a c)
             = Some ([], c(4 := a))"
    by (rule first_Cat [OF 1]) (simp add: 2)
  have 4: "first (rmatch n salt_hash_group (''$'' @ a) c) = Some ([], c(4 := a))"
    using 3 by (simp add: salt_hash_group_def rmatch_Cat_Chr)
  have 5: "first (rmatch n salt_hash_re (''$'' @ a) c) = Some ([], c(4 := a))"
    unfolding salt_hash_re_def by (rule first_Opt [OF 4])
  show ?thesis
    by (rule first_Cat [OF 5]) (simp add: rmatch.simps(8))
qed

lemma first_tail_salt_hash:
  assumes "a \<noteq> []" "list_all cls_value a" "b \<noteq> []" "list_all cls_value b"
  shows "first (rmatch n (Cat salt_hash_re Eol) (''$'' @ a @ ''$'' @ b) c)
           = Some ([], c(4 := a, 5 := b))"
proof -
  have "first (rmatch n (Plus (Cls cls_value)) (a @ ''$'' @ b) c) = Some (''$'' @ b, c)"
    using assms by (intro first_Plus_Cls) (simp_all add: not_cls_value_dollar)
  then have 1: "first (rmatch n (Cap 4 (Plus (Cls cls_value))) (a @ ''$'' @ b) c)
      = Some (''$'' @ b, c(4 := a))"
    by (rule first_Cap)
  have 2: "first (rmatch n (Opt hash_group) (''$'' @ b) (c(4 := a))) = Some ([], c(4 := a, 5 := b))"
    by (rule first_Opt [OF first_hash_group [OF assms(3,4)]])
  note 2 = 2 [simplified]
  have 3: "first (rmatch n (Cat (Cap 4 (Plus (Cls cls_value))) (Opt hash_group)) (a @ ''$'' @ b) c)
             = Some ([], c(4 := a, 5 := b))"
    by (rule first_Cat [OF 1]) (simp add: 2)
  have 4: "first (rmatch n salt_hash_group (''$'' @ a @ ''$'' @ b) c) = Some ([], c(4 := a, 5 := b))"
    using 3 by (simp add: salt_hash_group_def rmatch_Cat_Chr)
  have 5: "first (rmatch n salt_hash_re (''$'' @ a @ ''$'' @ b) c) = Some ([], c(4 := a, 5 := b))"
    unfolding salt_hash_re_def by (rule first_Opt [OF 4])
  show ?thesis
    by (rule first_Cat [OF 5]) (simp add: rmatch.simps(8))
qed

lemma first_param_re:
  assumes "valid_param p" "R = [] \<or> \<not> cls_value (hd R)"
  shows "first (rmatch n param_re (param_text p @ R) c) = Some (R, c)"
proof -
  have 1: "first (rmatch n (Plus (Cls cls_name)) (Name p @ (''='' @ Value p @ R)) c)
             = Some (''='' @ Value p @ R, c)"
    using assms by (intro first_Plus_Cls) (simp_all add: valid_param_def not_cls_value_dollar)
  have 2: "first (rmatch n (Plus (Cls cls_value)) (Value p @ R) c) = Some (R, c)"
    using assms by (intro first_Plus_Cls) (simp_all add: valid_param_def)
  have 3: "first (rmatch n (Cat (Chr CHR ''='') (Plus (Cls cls_value))) (''='' @ Value p @ R) c)
             = Some (R, c)"
    using 2 by (simp add: rmatch_Cat_Chr)
  show ?thesis
    unfolding param_re_def param_text_def append_assoc
    by (rule first_Cat [OF 1]) (use 3 in simp)
qed

lemma more_params_hd:
  assumes "T = [] \<or> hd T = CHR ''$''"
  shows "write_params (Suc 0) ps @ T = [] \<or> \<not> cls_value (hd (write_params (Suc 0) ps @ T))"
  using assms by (cases ps) (auto simp: not_cls_value_dollar)

lemma first_more_params:
  assumes "list_all valid_param ps" "T = [] \<or> hd T = CHR ''$''"
  shows "first (rmatch n (Star (Cat (Chr CHR '','') param_re)) (write_params (Suc 0) ps @ T) c)
           = Some (T, c)"
  using assms(1)
proof (induction ps)
  case Nil
  have "rmatch n (Cat (Chr CHR '','') param_re) T c = []"
    using assms(2) by (intro rmatch_Cat_fail1 rmatch_Chr_fail) auto
  then show ?case by (simp add: rmatch_Star_stop)
next
  case (Cons p ps)
  let ?R = "write_params (Suc 0) ps @ T"
  have s: "write_params (Suc 0) (p # ps) @ T = '','' @ param_text p @ ?R"
    by (simp add: param_text_def write_params_Suc)
  have 1: "first (rmatch n param_re (param_text p @ ?R) c) = Some (?R, c)"
    using Cons.prems more_params_hd [OF assms(2)] by (intro first_param_re) simp_all
  have 2: "first (rmatch n (Cat (Chr CHR '','') param_re) ('','' @ param_text p @ ?R) c)
             = Some (?R, c)"
    using 1 by (simp add: rmatch_Cat_Chr)
  have 3: "first (rmatch n (Star (Cat (Chr CHR '','') param_re)) ?R c) = Some (T, c)"
    using Cons by simp
  show ?case
    unfolding s by (rule first_Star_step [OF 2]) (simp_all add: 3)
qed

lemma first_params_group:
  assumes "list_all valid_param (p # ps)" "T = [] \<or> hd T = CHR ''$''"
  shows "first (rmatch n params_group (''$'' @ write_params 0 (p # ps) @ T) c)
           = Some (T, c(3 := write_params 0 (p # ps)))"
proof -
  let ?R = "write_params (Suc 0) ps @ T"
  have w: "write_params 0 (p # ps) @ T = param_text p @ ?R"
    by (simp add: param_text_def)
  have 1: "first (rmatch n param_re (param_text p @ ?R) c) = Some (?R, c)"
    using assms more_params_hd [OF assms(2)] by (intro first_param_re) simp_all
  have 2: "first (rmatch n (Star (Cat (Chr CHR '','') param_re)) ?R c) = Some (T, c)"
    using assms by (intro first_more_params) simp_all
  have 3: "first (rmatch n (Cat param_re (Star (Cat (Chr CHR '','') param_re)))
              (write_params 0 (p # ps) @ T) c) = Some (T, c)"
    unfolding w by (rule first_Cat [OF 1]) (simp add: 2)
  have 4: "first (rmatch n (Cap 3 (Cat param_re (Star (Cat (Chr CHR '','') param_re))))
              (write_params 0 (p # ps) @ T) c) = Some (T, c(3 := write_params 0 (p # ps)))"
    by (rule first_Cap [OF 3])
  show ?thesis
    using 4 by (simp add: params_group_def rmatch_Cat_Chr del: write_params.simps)
qed

lemma param_re_fail:
  assumes "CHR ''='' \<notin> set t"
  shows "rmatch n param_re t c = []"
  unfolding param_re_def rmatch.simps(3) [of n "Plus (Cls cls_name)"]
proof (rule concat_map_Nil, rule ballI)
  fix m
  assume "m \<in> set (rmatch n (Plus (Cls cls_name)) t c)"
  from consumesD [OF consumes_Plus_Cls this] obtain w where "t = w @ fst m" by auto
  with assms have "fst m = [] \<or> hd (fst m) \<noteq> CHR ''=''"
    by (cases "fst m") auto
  then show "rmatch n (Cat (Chr CHR ''='') (Plus (Cls cls_value))) (fst m) (snd m) = []"
    by (intro rmatch_Cat_fail1 rmatch_Chr_fail)
qed

lemma params_group_fail:
  assumes "T = [] \<or> (\<exists>T'. T = CHR ''$'' # T' \<and> CHR ''='' \<notin> set T')"
  shows "rmatch n params_group T c = []"
proof (cases T)
  case Nil
  then show ?thesis by (simp add: params_group_def rmatch.simps(1,3))
next
  case (Cons x T')
  with assms have x: "x = CHR ''$''" and T': "CHR ''='' \<notin> set T'" by auto
  have "rmatch n (Cat param_re (Star (Cat (Chr CHR '','') param_re))) T' c = []"
    by (rule rmatch_Cat_fail1 [OF param_re_fail [OF T']])
  then show ?thesis
    using Cons x by (simp add: params_group_def rmatch.simps(1,3,6))
qed

lemma params_absent:
  assumes "T = [] \<or> (\<exists>T'. T = CHR ''$'' # T' \<and> CHR ''='' \<notin> set T')"
  shows "rmatch n (Cat params_re k) T c = rmatch n k T c"
  unfolding params_re_def
  by (rule rmatch_Cat_Opt_skip) (simp add: params_group_fail [OF assms])

lemma params_present:
  assumes "list_all valid_param (p # ps)" "T = [] \<or> hd T = CHR ''$''"
    and "first (rmatch n k T (c(3 := write_params 0 (p # ps)))) = Some y"
  shows "first (rmatch n (Cat params_re k) (''$'' @ write_params 0 (p # ps) @ T) c) = Some y"
proof -
  have "first (rmatch n params_re (''$'' @ write_params 0 (p # ps) @ T) c)
          = Some (T, c(3 := write_params 0 (p # ps)))"
    unfolding params_re_def by (rule first_Opt [OF first_params_group [OF assms(1,2)]])
  then show ?thesis by (rule first_Cat) (use assms(3) in simp)
qed

lemma first_version_group:
  assumes "ver \<noteq> []" "list_all digit ver" "T = [] \<or> hd T = CHR ''$''"
  shows "first (rmatch n version_group (''$v='' @ ver @ T) c) = Some (T, c(2 := ver))"
proof -
  have "first (rmatch n (Plus (Cls digit)) (ver @ T) c) = Some (T, c)"
    using assms by (intro first_Plus_Cls) (auto simp: not_cls_value_dollar)
  then have "first (rmatch n (Cap 2 (Plus (Cls digit))) (ver @ T) c) = Some (T, c(2 := ver))"
    by (rule first_Cap)
  then show ?thesis
    by (simp add: version_group_def rmatch_Cat_Chr)
qed

lemma version_present:
  assumes "ver \<noteq> []" "list_all digit ver" "T = [] \<or> hd T = CHR ''$''"
    and "first (rmatch n k T (c(2 := ver))) = Some y"
  shows "first (rmatch n (Cat version_re k) (''$v='' @ ver @ T) c) = Some y"
proof -
  have "first (rmatch n version_re (''$v='' @ ver @ T) c) = Some (T, c(2 := ver))"
    unfolding version_re_def by (rule first_Opt [OF first_version_group [OF assms(1,2,3)]])
  then show ?thesis by (rule first_Cat) (use assms(4) in simp)
qed

lemma tail_fail:
  assumes "t \<noteq> []" "hd t \<noteq> CHR ''$''"
  shows "rmatch n (Cat params_re (Cat salt_hash_re Eol)) t c = []"
proof -
  have 1: "rmatch n params_group t c = []"
    unfolding params_group_def using assms by (intro rmatch_Cat_fail1 rmatch_Chr_fail) simp
  have 2: "rmatch n salt_hash_group t c = []"
    unfolding salt_hash_group_def using assms by (intro rmatch_Cat_fail1 rmatch_Chr_fail) simp
  show ?thesis
    using assms(1)
    by (simp add: params_re_def salt_hash_re_def rmatch.simps(3,4,8) 1 2)
qed

lemma version_absent:
  assumes "\<forall>m\<in>set (rmatch n version_group s c). fst m \<noteq> [] \<and> hd (fst m) \<noteq> CHR ''$''"
  shows "rmatch n (Cat version_re (Cat params_re (Cat salt_hash_re Eol))) s c
           = rmatch n (Cat params_re (Cat salt_hash_re Eol)) s c"
  unfolding version_re_def
  by (rule rmatch_Cat_Opt_skip) (use assms in \<open>simp add: tail_fail\<close>)

lemma dropWhile_id: "xs = [] \<or> \<not> P (hd xs) \<Longrightarrow> dropWhile P xs = xs"
  by (cases xs) auto

lemma split_at_first:
  "x \<notin> set u \<Longrightarrow> x \<notin> set v \<Longrightarrow> u @ x # a = v @ x # b \<Longrightarrow> u = v \<and> a = b"
proof (induction u arbitrary: v)
  case Nil
  then show ?case by (cases v) auto
next
  case (Cons y u)
  then show ?case by (cases v) auto
qed

lemma version_attempt:
  assumes ps: "list_all valid_param ps"
    and amb: "\<not> (\<exists>val. ps = [\<lparr>Name = ''v'', Value = val\<rparr>] \<and> list_all digit val)"
    and T: "T = [] \<or> (\<exists>T'. T = CHR ''$'' # T' \<and> CHR ''='' \<notin> set T')"
    and m: "m \<in> set (rmatch n version_group
                       ((if ps \<noteq> [] then ''$'' @ write_params 0 ps else []) @ T) c)"
  shows "fst m \<noteq> [] \<and> hd (fst m) \<noteq> CHR ''$''"
proof -
  from version_group_sound [OF m] obtain ver where
    ver: "ver \<noteq> []" "list_all digit ver" and
    eq: "(if ps \<noteq> [] then ''$'' @ write_params 0 ps else []) @ T = ''$v='' @ ver @ fst m"
    by auto
  show ?thesis
  proof (cases ps)
    case Nil
    with eq T show ?thesis by auto
  next
    case (Cons p ps')
    let ?R = "write_params (Suc 0) ps' @ T"
    let ?t = "fst m"
    from ps Cons have vp: "valid_param p" by simp
    from eq Cons have e0: "''v'' @ CHR ''='' # (ver @ ?t) = Name p @ CHR ''='' # (Value p @ ?R)"
      by simp
    have ne: "CHR ''='' \<notin> set ''v''" "CHR ''='' \<notin> set (Name p)"
      using valid_param_no_seps(2) [OF vp] by simp_all
    have "''v'' = Name p \<and> ver @ ?t = Value p @ ?R"
      by (rule split_at_first [OF ne e0])
    then have nm: "Name p = ''v''" and e: "ver @ ?t = Value p @ ?R"
      by simp_all
    have Rhd: "?R = [] \<or> hd ?R = CHR '','' \<or> hd ?R = CHR ''$''"
      using T by (cases ps') auto
    then have dR: "dropWhile digit ?R = ?R"
      by (intro dropWhile_id) (auto simp: not_cls_value_dollar)
    show ?thesis
    proof (rule ccontr)
      assume "\<not> (?t \<noteq> [] \<and> hd ?t \<noteq> CHR ''$'')"
      then have t: "?t = [] \<or> hd ?t = CHR ''$''" by blast
      then have "dropWhile digit ?t = ?t"
        by (intro dropWhile_id) (auto simp: not_cls_value_dollar)
      then have dl: "dropWhile digit (ver @ ?t) = ?t"
        using ver(2) by (simp add: dropWhile_append2 list_all_iff)
      show False
      proof (cases "list_all digit (Value p)")
        case True
        then have "dropWhile digit (Value p @ ?R) = ?R"
          using dR by (simp add: dropWhile_append2 list_all_iff)
        with dl e have tR: "?t = ?R" by simp
        from amb Cons nm True have "ps' \<noteq> []"
          by (cases p) auto
        then have "?R \<noteq> [] \<and> hd ?R = CHR '',''" by (cases ps') auto
        with tR t show False by auto
      next
        case False
        then obtain x where x: "x \<in> set (Value p)" "\<not> digit x"
          by (auto simp: list_all_iff)
        then have "dropWhile digit (Value p @ ?R) = dropWhile digit (Value p) @ ?R"
          by (rule dropWhile_append1)
        with dl e have tR: "?t = dropWhile digit (Value p) @ ?R" by simp
        from x have ne: "dropWhile digit (Value p) \<noteq> []"
          by (auto simp: dropWhile_eq_Nil_conv)
        then have "hd (dropWhile digit (Value p)) \<in> set (Value p)"
          by (meson hd_in_set set_dropWhileD)
        then have "hd (dropWhile digit (Value p)) \<noteq> CHR ''$''"
          using vp cls_value_cases by (auto simp: valid_param_def list_all_iff)
        with tR ne t show False by auto
      qed
    qed
  qed
qed

lemma first_id_re:
  assumes "valid_id i" "T = [] \<or> hd T = CHR ''$''"
  shows "first (rmatch n id_re (''$'' @ i @ T) c) = Some (T, c(1 := i))"
proof -
  from assms(1) obtain x i' where i: "i = x # i'" "cls_name x" "list_all cls_name i'"
    "length i' \<le> 31"
    by (cases i) (auto simp: valid_id_def)
  have T: "T = [] \<or> \<not> cls_name (hd T)"
    using assms(2) by (auto simp: not_cls_value_dollar)
  have 1: "first (rmatch n (Cls cls_name) (i @ T) c) = Some (i' @ T, c)"
    using i by (simp add: rmatch.simps(2))
  have 2: "first (rmatch n (upto_rep (Cls cls_name) 31) (i' @ T) c) = Some (T, c)"
    using i T by (intro first_upto_rep_Cls) simp_all
  have "first (rmatch n (Cat (Cls cls_name) (upto_rep (Cls cls_name) 31)) (i @ T) c) = Some (T, c)"
    by (rule first_Cat [OF 1]) (use 2 in simp)
  then have "first (rmatch n (Cap 1 (Cat (Cls cls_name) (upto_rep (Cls cls_name) 31))) (i @ T) c)
      = Some (T, c(1 := i))"
    by (rule first_Cap)
  then show ?thesis by (simp add: id_re_def rmatch_Cat_Chr)
qed

lemma FindStringSubmatch_first:
  "FindStringSubmatch re text
     = map_option snd (first (concat (map (\<lambda>i. rmatch (length text) (Cap 0 re) (drop i text)
                                               (\<lambda>_. [])) [0..<Suc (length text)])))"
proof -
  define L where "L = concat (map (\<lambda>i. rmatch (length text) (Cap 0 re) (drop i text)
                                               (\<lambda>_. [])) [0..<Suc (length text)])"
  show ?thesis
    unfolding FindStringSubmatch_def first_def L_def [symmetric]
    by (cases L) simp_all
qed

lemma FindStringSubmatch_format:
  assumes "first (rmatch (length text) (Cat id_re (Cat version_re (Cat params_re
             (Cat salt_hash_re Eol)))) text (\<lambda>_. [])) = Some ([], C)"
  shows "FindStringSubmatch format text = Some (C(0 := text))"
proof -
  have "rmatch (length text) format text (\<lambda>_. [])
          = rmatch (length text) (Cat id_re (Cat version_re (Cat params_re
             (Cat salt_hash_re Eol)))) text (\<lambda>_. [])"
    by (simp add: format_def rmatch.simps(3) [of _ Bol] rmatch.simps(7))
  with assms have "first (rmatch (length text) format (text @ []) (\<lambda>_. [])) = Some ([], C)"
    by simp
  then have "first (rmatch (length text) (Cap 0 format) (text @ []) (\<lambda>_. []))
      = Some ([], C(0 := text))"
    by (rule first_Cap)
  then have 0: "first (rmatch (length text) (Cap 0 format) (drop 0 text) (\<lambda>_. []))
      = Some ([], C(0 := text))" by simp
  have "[0..<Suc (length text)] = 0 # [Suc 0..<Suc (length text)]"
    by (simp add: upt_conv_Cons del: upt_Suc)
  then show ?thesis
    unfolding FindStringSubmatch_first using 0
    by (simp add: first_append del: upt_Suc)
qed

lemma cls_value_no_eq: "list_all cls_value w \<Longrightarrow> CHR ''='' \<notin> set w"
  using cls_value_cases by (auto simp: list_all_iff)

lemma write_params_eq_Nil: "list_all valid_param ps \<Longrightarrow> write_params 0 ps = [] \<longleftrightarrow> ps = []"
  by (cases ps) (auto simp: valid_param_def)

lemma decode_encoded:
  assumes v: "valid_Format r" and amb: "\<not> version_like r"
  shows "UnmarshalText f0 (String r) = Some (None, r)"
proof -
  let ?Es = "EncodeToString (Salt r)" and ?Eh = "EncodeToString (Hash r)"
  let ?W = "write_params 0 (Params r)"
  define S where "S = (if length (Salt r) > 0 then
          ''$'' @ ?Es @ (if length (Hash r) > 0 then ''$'' @ ?Eh else []) else [])"
  define P where "P = (if length (Params r) > 0 then ''$'' @ ?W else [])"
  define V where "V = (if Version r \<noteq> [] then ''$v='' @ Version r else [])"
  define cS :: "caps \<Rightarrow> caps" where "cS = (\<lambda>c. if Salt r = [] then c
      else if Hash r = [] then c(4 := ?Es) else c(4 := ?Es, 5 := ?Eh))"
  define cP :: "caps \<Rightarrow> caps" where "cP = (\<lambda>c. if Params r = [] then c else c(3 := ?W))"
  define cV :: "caps \<Rightarrow> caps" where "cV = (\<lambda>c. if Version r = [] then c else c(2 := Version r))"
  define n where "n = length (String r)"
  from v have vid: "valid_id (ID r)" and vver: "list_all digit (Version r)"
    and vps: "list_all valid_param (Params r)" and vh: "Hash r \<noteq> [] \<longrightarrow> Salt r \<noteq> []"
    by (simp_all add: valid_Format_def)
  have str: "String r = ''$'' @ ID r @ V @ P @ S"
    by (simp add: String_def V_def P_def S_def)
  have S_first: "first (rmatch n (Cat salt_hash_re Eol) S c) = Some ([], cS c)" for c
  proof (cases "Salt r = []")
    case True
    then show ?thesis by (simp add: S_def cS_def first_tail_none)
  next
    case s: False
    show ?thesis
    proof (cases "Hash r = []")
      case True
      with s show ?thesis
        using first_tail_salt [of ?Es n c]
        by (simp add: S_def cS_def EncodeToString_eq_Nil EncodeToString_cls_value)
    next
      case False
      with s show ?thesis
        using first_tail_salt_hash [of ?Es ?Eh n c]
        by (simp add: S_def cS_def EncodeToString_eq_Nil EncodeToString_cls_value)
    qed
  qed
  have S_hd: "S = [] \<or> hd S = CHR ''$''"
    by (simp add: S_def)
  have S_shape: "S = [] \<or> (\<exists>T'. S = CHR ''$'' # T' \<and> CHR ''='' \<notin> set T')"
    using cls_value_no_eq [OF EncodeToString_cls_value [of "Salt r"]]
      cls_value_no_eq [OF EncodeToString_cls_value [of "Hash r"]]
    by (simp add: S_def)
  have P_first: "first (rmatch n (Cat params_re (Cat salt_hash_re Eol)) (P @ S) c)
                   = Some ([], cS (cP c))" for c
  proof (cases "Params r")
    case Nil
    then show ?thesis
      using params_absent [OF S_shape, of n "Cat salt_hash_re Eol" c] S_first [of c]
      by (simp add: P_def cP_def)
  next
    case (Cons p ps)
    have "first (rmatch n (Cat params_re (Cat salt_hash_re Eol))
             (''$'' @ write_params 0 (p # ps) @ S) c) = Some ([], cS (c(3 := write_params 0 (p # ps))))"
      using vps Cons by (intro params_present S_hd S_first) simp
    with Cons show ?thesis by (simp add: P_def cP_def)
  qed
  have PS_hd: "P @ S = [] \<or> hd (P @ S) = CHR ''$''"
    using S_hd by (simp add: P_def)
  have V_first: "first (rmatch n (Cat version_re (Cat params_re (Cat salt_hash_re Eol)))
                    (V @ P @ S) c) = Some ([], cS (cP (cV c)))" for c
  proof (cases "Version r = []")
    case True
    have na: "\<not> (\<exists>val. Params r = [\<lparr>Name = ''v'', Value = val\<rparr>] \<and> list_all digit val)"
      using amb True by (auto simp: version_like_def)
    have "\<forall>m\<in>set (rmatch n version_group (P @ S) c). fst m \<noteq> [] \<and> hd (fst m) \<noteq> CHR ''$''"
      using version_attempt [OF vps na S_shape, of _ n c]
      by (auto simp: P_def)
    from version_absent [OF this] P_first [of c] True show ?thesis
      by (simp add: V_def cV_def)
  next
    case False
    have "first (rmatch n (Cat version_re (Cat params_re (Cat salt_hash_re Eol)))
             (''$v='' @ Version r @ (P @ S)) c) = Some ([], cS (cP (c(2 := Version r))))"
      using False vver PS_hd by (intro version_present P_first) simp_all
    with False show ?thesis by (simp add: V_def cV_def)
  qed
  have VPS_hd: "V @ P @ S = [] \<or> hd (V @ P @ S) = CHR ''$''"
    using PS_hd by (simp add: V_def)
  have I_first: "first (rmatch n (Cat id_re (Cat version_re (Cat params_re (Cat salt_hash_re Eol))))
                    (String r) (\<lambda>_. [])) = Some ([], cS (cP (cV ((\<lambda>_. [])(1 := ID r)))))"
    unfolding str
    by (rule first_Cat [OF first_id_re [OF vid VPS_hd]]) (simp add: V_first)
  define C where "C = (cS (cP (cV ((\<lambda>_. [])(1 := ID r)))))(0 := String r)"
  have F: "FindStringSubmatch format (String r) = Some C"
    unfolding C_def by (rule FindStringSubmatch_format) (use I_first in \<open>simp add: n_def\<close>)
  have C1: "C 1 = ID r" and C2: "C 2 = Version r" and C3: "C 3 = ?W"
    and C4: "C 4 = ?Es" and C5: "C 5 = ?Eh"
    using vh by (auto simp: C_def cS_def cP_def cV_def)
  have pp: "(if length (C 3) > 0 then parse_params (Split (C 3) CHR '','') else Some [])
              = Some (Params r)"
  proof (cases "Params r")
    case Nil
    then show ?thesis by (simp add: C3)
  next
    case (Cons p ps)
    then have "?W \<noteq> []" using vps write_params_eq_Nil [of "Params r"] by simp
    moreover have "parse_params (Split ?W CHR '','') = Some (Params r)"
      using vps Cons Split_params [of p ps] parse_params_texts [of "Params r"] by simp
    ultimately show ?thesis by (simp add: C3)
  qed
  have "UnmarshalText f0 (String r)
          = Some (None, \<lparr>ID = ID r, Version = Version r, Params = Params r,
                         Salt = Salt r, Hash = Hash r\<rparr>)"
    unfolding UnmarshalText_def F option.case pp
    using vh
    by (simp add: C1 [simplified] C2 C4 C5 EncodeToString_eq_Nil DecodeString_EncodeToString
          Let_def)
  then show ?thesis by simp
qed

lemma decoded_version_segment:
  assumes dec: "UnmarshalText f0 s = Some (None, f)"
  shows "list_all digit (Version f)
     \<and> (\<exists>rest. s = ''$'' @ ID f @ (if Version f \<noteq> [] then ''$v='' @ Version f else []) @ rest
           \<and> (rest = [] \<or> hd rest = CHR ''$''))"
proof -
  from dec obtain C where C: "FindStringSubmatch format s = Some C"
    by (auto simp: UnmarshalText_def split: option.splits)
  from FindStringSubmatch_format_sound [OF C] have sh: "shape C s" .
  from sh have s: "s = ''$'' @ C 1
         @ (if C 2 \<noteq> [] then ''$v='' @ C 2 else [])
         @ (if C 3 \<noteq> [] then ''$'' @ C 3 else [])
         @ (if C 4 \<noteq> [] then ''$'' @ C 4 @ (if C 5 \<noteq> [] then ''$'' @ C 5 else []) else [])"
    and d: "list_all digit (C 2)"
    by (simp_all add: shape_def)
  have ID: "ID f = C 1" and Ver: "Version f = C 2"
    using dec C by (auto simp: UnmarshalText_def Let_def split: option.splits sum.splits if_splits)
  define rest where "rest = (if C 3 \<noteq> [] then ''$'' @ C 3 else [])
         @ (if C 4 \<noteq> [] then ''$'' @ C 4 @ (if C 5 \<noteq> [] then ''$'' @ C 5 else []) else [])"
  have r: "rest = [] \<or> hd rest = CHR ''$''" by (simp add: rest_def)
  have e: "s = ''$'' @ ID f @ (if Version f \<noteq> [] then ''$v='' @ Version f else []) @ rest"
    using s unfolding rest_def ID Ver by simp
  from d Ver have "list_all digit (Version f)" by simp
  moreover from e r have "\<exists>rest. s = ''$'' @ ID f
      @ (if Version f \<noteq> [] then ''$v='' @ Version f else []) @ rest
           \<and> (rest = [] \<or> hd rest = CHR ''$'')"
    by (intro exI [of _ rest] conjI)
  ultimately show ?thesis by (rule conjI)
qed








lemma dec_value_snoc: "dec_value (s @ [x]) = dec_value s * 10 + digit_val x"
  by (simp add: dec_value_def)

lemma foldl_step_mono: "a \<le> foldl (\<lambda>a x. a * 10 + digit_val x) a s"
proof (induction s arbitrary: a)
  case Nil
  show ?case by simp
next
  case (Cons x s)
  have "a \<le> a * 10 + digit_val x" by simp
  also have "\<dots> \<le> foldl (\<lambda>a x. a * 10 + digit_val x) (a * 10 + digit_val x) s"
    by (rule Cons.IH)
  finally show ?case by simp
qed

lemma digit_val_le: "digit x \<Longrightarrow> digit_val x \<le> 9"
proof -
  assume "digit x"
  then have "of_char x \<le> (57 :: nat)"
    by (simp add: digit_def less_eq_char_def)
  then show ?thesis by (simp add: digit_val_def)
qed

lemma ParseUint_loop_char:
  assumes M: "M < 2 ^ 32" "unat maxVal = M"
  shows "unat n \<le> M \<Longrightarrow>
     (case ParseUint_loop maxVal s0 n s of
        Inl e \<Rightarrow> \<not> (list_all digit s \<and> foldl (\<lambda>a x. a * 10 + digit_val x) (unat n) s \<le> M)
      | Inr v \<Rightarrow> list_all digit s \<and> foldl (\<lambda>a x. a * 10 + digit_val x) (unat n) s \<le> M
                 \<and> unat v = foldl (\<lambda>a x. a * 10 + digit_val x) (unat n) s)"
proof (induction s arbitrary: n)
  case Nil
  then show ?case by simp
next
  case (Cons x s)
  show ?case
  proof (cases "digit x")
    case False
    then show ?thesis by simp
  next
    case True
    define d where "d = digit_val x"
    have d: "d \<le> 9" using True by (simp add: d_def digit_val_le)
    have n32: "unat n < 2 ^ 32" using Cons.prems M by simp
    have nc: "\<not> n \<ge> cutoff"
    proof -
      have "unat cutoff = 1844674407370955162" by (simp add: cutoff_def)
      with n32 show ?thesis by (simp add: word_le_nat_alt)
    qed
    have u10: "unat (n * 10) = unat n * 10"
    proof -
      have "unat n * unat (10 :: 64 word) < 2 ^ LENGTH(64)" using n32 by simp
      then have "unat (n * 10) = unat n * unat (10 :: 64 word)"
        by (simp only: unat_mult_lem)
      then show ?thesis by simp
    qed
    have ud: "unat (of_nat d :: 64 word) = d"
      using d by (simp add: unat_of_nat)
    have u1: "unat (n * 10 + of_nat d) = unat n * 10 + d"
    proof -
      have "unat (n * 10) + unat (of_nat d :: 64 word) < 2 ^ LENGTH(64)"
        using n32 d by (simp add: u10 ud)
      then have "unat (n * 10 + of_nat d) = unat (n * 10) + unat (of_nat d :: 64 word)"
        by (simp only: unat_add_lem)
      then show ?thesis by (simp add: u10 ud)
    qed
    have nlt: "\<not> n * 10 + of_nat d < n * 10"
      by (simp add: word_less_nat_alt u1 u10)
    have gt: "n * 10 + of_nat d > maxVal \<longleftrightarrow> \<not> unat n * 10 + d \<le> M"
      by (auto simp: word_less_nat_alt u1 M)
    show ?thesis
    proof (cases "unat n * 10 + d \<le> M")
      case le: True
      have "unat (n * 10 + of_nat d) \<le> M" using le by (simp add: u1)
      from Cons.IH [OF this] show ?thesis
        using True nc nlt gt le
        by (auto simp: Let_def d_def [symmetric] u1 split: sum.splits)
    next
      case gtM: False
      have "unat n * 10 + d \<le> foldl (\<lambda>a x. a * 10 + digit_val x) (unat n * 10 + d) s"
        by (rule foldl_step_mono)
      with gtM have "\<not> foldl (\<lambda>a x. a * 10 + digit_val x) (unat n * 10 + d) s \<le> M"
        by simp
      then show ?thesis
        using True nc nlt gt gtM by (auto simp: Let_def d_def [symmetric] split: sum.splits)
    qed
  qed
qed

lemma ParseUint_char:
  assumes "b = 8 \<or> b = 32"
  shows "case ParseUint s b of
           Inl e \<Rightarrow> \<not> is_uint_decimal b s
         | Inr v \<Rightarrow> is_uint_decimal b s \<and> unat v = dec_value s"
proof (cases "s = []")
  case True
  then show ?thesis by (simp add: ParseUint_def is_uint_decimal_def)
next
  case False
  have M: "(2 ^ b - 1 :: nat) < 2 ^ 32" "unat (2 ^ b - 1 :: 64 word) = 2 ^ b - 1"
    using assms by auto
  have lt: "x \<le> 2 ^ b - Suc 0 \<longleftrightarrow> x < 2 ^ b" for x :: nat
    using assms by auto
  from ParseUint_loop_char [OF M, of 0 s s] False show ?thesis
    by (simp add: ParseUint_def is_uint_decimal_def dec_value_def lt split: sum.splits)
qed

lemma ParseUint_Inr_iff:
  assumes "b = 8 \<or> b = 32"
  shows "(\<exists>v. ParseUint s b = Inr v) \<longleftrightarrow> is_uint_decimal b s"
  using ParseUint_char [OF assms, of s] by (cases "ParseUint s b") auto

lemma ParseUint_Inr_value:
  assumes "b = 8 \<or> b = 32" "ParseUint s b = Inr v"
  shows "unat v = dec_value s"
  using ParseUint_char [OF assms(1), of s] assms(2) by simp

lemma list_all_digit_digits: "list_all digit digits"
  by (simp add: digits_def digit_def)

lemma digit_digits: "d < 10 \<Longrightarrow> digit (digits ! d)"
  using list_all_digit_digits by (simp add: list_all_length digits_def)

lemma digit_val_digits: "d < 10 \<Longrightarrow> digit_val (digits ! d) = d"
proof -
  have "map digit_val digits = [0..<10]"
    by (simp add: digits_def digit_val_def upt_rec)
  moreover assume "d < 10"
  ultimately show ?thesis
    by (metis length_map nth_map nth_upt add_0 length_upt diff_zero)
qed


lemma decimal_digits: "list_all digit (decimal n)"
proof (induction n rule: decimal.induct)
  case (1 n)
  show ?case
  proof (cases "n < 10")
    case True
    then show ?thesis by (subst decimal.simps) (simp add: digit_digits)
  next
    case False
    with 1 show ?thesis by (subst decimal.simps) (simp add: digit_digits)
  qed
qed

lemma decimal_nonempty: "decimal n \<noteq> []"
  by (subst decimal.simps) simp

lemma dec_value_decimal: "dec_value (decimal n) = n"
proof (induction n rule: decimal.induct)
  case (1 n)
  show ?case
  proof (cases "n < 10")
    case True
    then show ?thesis by (subst decimal.simps) (simp add: dec_value_def digit_val_digits)
  next
    case False
    with 1 show ?thesis
      by (subst decimal.simps) (simp add: dec_value_snoc digit_val_digits)
  qed
qed


lemma ParseUint_FormatUint:
  assumes "b = 8 \<or> b = 32" "unat u < 2 ^ b"
  shows "ParseUint (FormatUint u) b = Inr u"
proof -
  have "is_uint_decimal b (FormatUint u)"
    using assms(2)
    by (simp add: is_uint_decimal_def FormatUint_def decimal_digits decimal_nonempty
          dec_value_decimal)
  with ParseUint_Inr_iff [OF assms(1)] obtain v where v: "ParseUint (FormatUint u) b = Inr v"
    by blast
  from ParseUint_Inr_value [OF assms(1) v] have "unat v = unat u"
    by (simp add: FormatUint_def dec_value_decimal)
  with v show ?thesis by (simp add: word_unat_eq_iff)
qed

lemma ReadAtLeast_loop_length_aux:
  assumes "ReadAtLeast_loop r mn buf w = Some y"
  shows "length buf \<le> mn \<longrightarrow> length (fst (fst y)) \<le> mn"
proof (rule ReadAtLeast_loop.raw_induct
    [where P = "\<lambda>r mn buf w y. length buf \<le> mn \<longrightarrow> length (fst (fst y)) \<le> mn",
     OF _ assms])
  fix loop :: "'a Reader \<Rightarrow> nat \<Rightarrow> byte list \<Rightarrow> 'a
                 \<Rightarrow> ((byte list \<times> error option) \<times> 'a) option"
    and r :: "'a Reader" and mn buf w y
  assume IH: "\<And>r mn buf w y. loop r mn buf w = Some y
                 \<Longrightarrow> length buf \<le> mn \<longrightarrow> length (fst (fst y)) \<le> mn"
    and eq: "(if length buf < mn
      then case r (mn - length buf) w of
           ((bs, err), w') \<Rightarrow>
             if err = None
             then loop r mn (buf @ take (mn - length buf) bs) w'
             else Some ((buf @ take (mn - length buf) bs, err), w')
      else Some ((buf, None), w)) = Some y"
  show "length buf \<le> mn \<longrightarrow> length (fst (fst y)) \<le> mn"
  proof (cases "length buf < mn")
    case False
    with eq show ?thesis by auto
  next
    case True
    obtain bs e w1 where rd: "r (mn - length buf) w = ((bs, e), w1)"
      by (metis prod.exhaust)
    have len: "length (buf @ take (mn - length buf) bs) \<le> mn" using True by simp
    show ?thesis
    proof (cases "e = None")
      case n: True
      with eq True rd
      have "loop r mn (buf @ take (mn - length buf) bs) w1 = Some y"
        by simp
      from IH [OF this] len show ?thesis by simp
    next
      case False
      with eq True rd show ?thesis
        using len by auto
    qed
  qed
qed

lemma ReadFull_length:
  assumes "ReadFull r len w = Some ((buf, err), w')"
  shows "length buf = len"
proof -
  from assms obtain acc e where l: "ReadAtLeast_loop r len [] w = Some ((acc, e), w')"
    and b: "buf = acc @ replicate (len - length acc) 0"
    by (auto simp: ReadFull_def split: option.splits prod.splits)
  from ReadAtLeast_loop_length_aux [OF l] have "length acc \<le> len" by simp
  with b show ?thesis by simp
qed

lemma ReadFull_one_read:
  assumes "r len w = ((bs, None), w')" "length bs = len" "0 < len"
  shows "ReadFull r len w = Some ((bs, None), w')"
proof -
  have 2: "ReadAtLeast_loop r len bs w' = Some ((bs, None), w')"
    using assms(2) by (subst ReadAtLeast_loop.simps) simp
  have "ReadAtLeast_loop r len [] w = Some ((bs, None), w')"
    using assms 2 by (subst ReadAtLeast_loop.simps) simp
  then show ?thesis
    using assms(2) by (simp add: ReadFull_def)
qed

lemma NewSaltGenerator_length:
  assumes "NewSaltGenerator len r w = Some (Inr slt, w')"
  shows "length slt = len"
proof -
  from assms obtain err where "ReadFull r len w = Some ((slt, err), w')"
    by (auto simp: NewSaltGenerator_def split: option.splits prod.splits)
  then show ?thesis by (rule ReadFull_length)
qed

lemma NewSaltGenerator_one_read:
  assumes "r len w = ((bs, None), w')" "length bs = len" "0 < len"
  shows "NewSaltGenerator len r w = Some (Inr bs, w')"
  using ReadFull_one_read [of r len w bs w'] assms by (simp add: NewSaltGenerator_def)







lemma Itoa_Version: "Itoa argon2_Version = ''19''"
  by (simp add: Itoa_def argon2_Version_def decimal.simps digits_def)

lemma ucast_parsed:
  assumes "b = 8 \<or> b = 32" "ParseUint s b = Inr v"
  shows "(ucast v :: 'a::len word) = of_nat (dec_value s)"
  using ParseUint_Inr_value [OF assms] by (metis of_nat_unat)

lemma Decode_binding:
  assumes dec: "phc_Decode s = Some (Inr d)" and idv: "ID d = argon2ID"
    and ver: "Version d = Itoa argon2_Version"
  shows "Decode s = Some (
     if length (Params d) \<noteq> 3 then Inl (InvalidParameterCount (length (Params d)))
     else if map Name (Params d) \<noteq> [''m'', ''t'', ''p''] then Inl ParameterOrder
     else if \<not> is_uint_decimal 32 (Value (Params d ! 0))
       then Inl (MemoryParameterError (projl (ParseUint (Value (Params d ! 0)) 32)))
     else if \<not> is_uint_decimal 32 (Value (Params d ! 1))
       then Inl (TimeParameterError (projl (ParseUint (Value (Params d ! 1)) 32)))
     else if \<not> is_uint_decimal 8 (Value (Params d ! 2))
       then Inl (ParallelismParameterError (projl (ParseUint (Value (Params d ! 2)) 8)))
     else if length (Hash d) > 4294967295 then Inl (HashTooLong (length (Hash d)))
     else Inr (d, \<lparr>Memory = of_nat (dec_value (Value (Params d ! 0))),
                   Time = of_nat (dec_value (Value (Params d ! 1))),
                   Parallelism = of_nat (dec_value (Value (Params d ! 2))),
                   KeyLength = of_nat (length (Hash d))\<rparr>))"
proof (cases "length (Params d) = 3")
  case False
  then show ?thesis using dec idv ver by (simp add: Decode_def)
next
  case True
  then obtain p0 p1 p2 where ps: "Params d = [p0, p1, p2]"
    by (auto simp: length_Suc_conv numeral_3_eq_3)
  note P8 = ParseUint_char [of 8 "Value p2"] and P32m = ParseUint_char [of 32 "Value p0"]
    and P32t = ParseUint_char [of 32 "Value p1"]
  show ?thesis
  proof (cases "map Name (Params d) = [''m'', ''t'', ''p'']")
    case False
    then show ?thesis using dec idv ver ps by (auto simp: Decode_def)
  next
    case names: True
    show ?thesis
      using dec idv ver ps names P8 P32m P32t
        ucast_parsed [of 32 "Value p0", where 'a=32]
        ucast_parsed [of 32 "Value p1", where 'a=32]
        ucast_parsed [of 8 "Value p2", where 'a=8]
      by (auto simp: Decode_def MaxUint32_def split: sum.splits)
  qed
qed

lemma length_huge_hash: "length huge_hash = 4294967296"
  by (simp add: huge_hash_def)

lemma phc_Decode_huge: "phc_Decode (String huge) = Some (Inr huge)"
proof -
  have "valid_Format huge"
    by (simp add: huge_def valid_Format_def valid_id_def valid_param_def cls_name_def
          cls_value_def lower_def upper_def digit_def)
  moreover have "\<not> version_like huge"
    by (simp add: huge_def version_like_def)
  ultimately have "UnmarshalText zero_Format (String huge) = Some (None, huge)"
    by (rule decode_encoded)
  then show ?thesis by (simp add: phc_Decode_def)
qed

lemma is_uint_decimal_1: "is_uint_decimal 32 ''1''" "is_uint_decimal 8 ''1''"
  by (simp_all add: is_uint_decimal_def digit_def dec_value_def digit_val_def)

lemma is_uint_decimal_65536: "is_uint_decimal 32 ''65536''"
  by (simp add: is_uint_decimal_def digit_def dec_value_def digit_val_def)

lemma is_uint_decimal_2_1: "is_uint_decimal 32 ''2''" "is_uint_decimal 8 ''1''"
  by (simp_all add: is_uint_decimal_def digit_def dec_value_def digit_val_def)

lemma dec_value_examples: "dec_value ''65536'' = 65536" "dec_value ''2'' = 2" "dec_value ''1'' = 1"
  by (simp_all add: dec_value_def digit_val_def)

lemma phc_Decode_example: "phc_Decode ''$argon2id$v=19$m=65536,t=2,p=1$c29tZXNhbHQ$QUJD''
     = Some (Inr \<lparr>ID = ''argon2id'', Version = ''19'',
                  Params = [\<lparr>Name = ''m'', Value = ''65536''\<rparr>, \<lparr>Name = ''t'', Value = ''2''\<rparr>,
                            \<lparr>Name = ''p'', Value = ''1''\<rparr>],
                  Salt = [115, 111, 109, 101, 115, 97, 108, 116], Hash = [65, 66, 67]\<rparr>)"
    by code_simp






section \<open>Properties of the PHC codec\<close>

lemma version_like_reencoded:
  assumes v: "valid_Format r" and vl: "version_like r"
  shows "phc_Decode (String r)
           = Some (Inr (r\<lparr>Version := Value (hd (Params r)), Params := []\<rparr>))"
proof -
  from vl obtain p where p: "Params r = [p]" "Name p = ''v''" "list_all digit (Value p)"
    and ver: "Version r = []"
    by (auto simp: version_like_def length_Suc_conv)
  let ?r' = "r\<lparr>Version := Value p, Params := []\<rparr>"
  from v p have vp: "Value p \<noteq> []" by (simp add: valid_Format_def valid_param_def)
  have "valid_Format ?r'" using v p by (simp add: valid_Format_def)
  moreover have "\<not> version_like ?r'" using vp by (simp add: version_like_def)
  ultimately have "UnmarshalText zero_Format (String ?r') = Some (None, ?r')"
    by (rule decode_encoded)
  moreover have "String ?r' = String r"
    using p ver vp by (simp add: String_def)
  ultimately show ?thesis using p by (simp add: phc_Decode_def)
qed

text \<open>
  C1. Decoding the encoding of a structurally valid record \<open>r\<close> (identifier of 1 to 32
  characters of \<^verbatim>\<open>[a-z0-9-]\<close>, version of digits only or empty, parameters with non-empty
  names of \<^verbatim>\<open>[a-z0-9-]\<close> and non-empty values of \<^verbatim>\<open>[a-zA-Z0-9/+.-]\<close>, a hash only with
  a salt) gives \<open>r\<close> back exactly when \<open>r\<close> is not a record with an empty version and the
  single parameter \<^verbatim>\<open>v\<close> with an all-digit value. The encoding of such a record is read
  back with that value as the version and no parameter.\<close>

theorem decode_encode_roundtrip:
  "valid_Format r \<Longrightarrow> (phc_Decode (String r) = Some (Inr r)) = (\<not> version_like r)"
proof -
  assume v: "valid_Format r"
  show ?thesis
  proof (cases "version_like r")
    case False
    with decode_encoded [OF v False, of zero_Format] show ?thesis
      by (simp add: phc_Decode_def)
  next
    case True
    then have "Version r = []" "Value (hd (Params r)) \<noteq> []"
      using v by (auto simp: version_like_def valid_Format_def valid_param_def length_Suc_conv)
    then have "r\<lparr>Version := Value (hd (Params r)), Params := []\<rparr> \<noteq> r"
      by (metis Format.select_convs(2) Format.surjective Format.update_convs(2) Format.update_convs(3))
    with version_like_reencoded [OF v True] True show ?thesis by simp
  qed
qed

theorem decode_encode_roundtrip_witness:
  "valid_Format \<lparr>ID = ''argon2id'', Version = ''19'',
                  Params = [\<lparr>Name = ''m'', Value = ''65536''\<rparr>, \<lparr>Name = ''t'', Value = ''2''\<rparr>,
                            \<lparr>Name = ''p'', Value = ''1''\<rparr>],
                  Salt = [1, 2, 3, 4], Hash = [5, 6]\<rparr>
   \<and> phc_Decode (String \<lparr>ID = ''argon2id'', Version = ''19'',
                  Params = [\<lparr>Name = ''m'', Value = ''65536''\<rparr>, \<lparr>Name = ''t'', Value = ''2''\<rparr>,
                            \<lparr>Name = ''p'', Value = ''1''\<rparr>],
                  Salt = [1, 2, 3, 4], Hash = [5, 6]\<rparr>)
     = Some (Inr \<lparr>ID = ''argon2id'', Version = ''19'',
                  Params = [\<lparr>Name = ''m'', Value = ''65536''\<rparr>, \<lparr>Name = ''t'', Value = ''2''\<rparr>,
                            \<lparr>Name = ''p'', Value = ''1''\<rparr>],
                  Salt = [1, 2, 3, 4], Hash = [5, 6]\<rparr>)"
proof -
  have v: "valid_Format \<lparr>ID = ''argon2id'', Version = ''19'',
                  Params = [\<lparr>Name = ''m'', Value = ''65536''\<rparr>, \<lparr>Name = ''t'', Value = ''2''\<rparr>,
                            \<lparr>Name = ''p'', Value = ''1''\<rparr>],
                  Salt = [1, 2, 3, 4], Hash = [5, 6]\<rparr>"
    by (simp add: valid_Format_def valid_id_def valid_param_def cls_name_def cls_value_def
          lower_def upper_def digit_def)
  from decode_encode_roundtrip [OF v] v show ?thesis
    by (simp add: version_like_def)
qed

theorem decode_encode_counterexample:
  "valid_Format \<lparr>ID = ''argon2id'', Version = [], Params = [\<lparr>Name = ''v'', Value = ''19''\<rparr>],
                  Salt = [], Hash = []\<rparr>
   \<and> String \<lparr>ID = ''argon2id'', Version = [], Params = [\<lparr>Name = ''v'', Value = ''19''\<rparr>],
             Salt = [], Hash = []\<rparr> = ''$argon2id$v=19''
   \<and> phc_Decode ''$argon2id$v=19''
       = Some (Inr \<lparr>ID = ''argon2id'', Version = ''19'', Params = [], Salt = [], Hash = []\<rparr>)"
proof -
  have "valid_Format \<lparr>ID = ''argon2id'', Version = [], Params = [\<lparr>Name = ''v'', Value = ''19''\<rparr>],
                  Salt = [], Hash = []\<rparr>"
    by (simp add: valid_Format_def valid_id_def valid_param_def cls_name_def cls_value_def
          lower_def upper_def digit_def)
  moreover have "String \<lparr>ID = ''argon2id'', Version = [], Params = [\<lparr>Name = ''v'', Value = ''19''\<rparr>],
             Salt = [], Hash = []\<rparr> = ''$argon2id$v=19''"
    by (simp add: String_def)
  moreover have "phc_Decode ''$argon2id$v=19''
       = Some (Inr \<lparr>ID = ''argon2id'', Version = ''19'', Params = [], Salt = [], Hash = []\<rparr>)"
    by code_simp
  ultimately show ?thesis by blast
qed

text \<open>
  C2. For every string \<open>s\<close> accepted by \<^verbatim>\<open>Decode\<close> whose salt and hash segments are
  canonical unpadded base64 (the unused low bits of the last character of a final group of
  two or three characters are zero), encoding the decoded record gives \<open>s\<close> back character
  for character. The decoder is not strict: it also accepts a last character with other
  low bits, which the encoder does not reproduce.\<close>

theorem encode_decode_roundtrip:
  "phc_Decode s = Some (Inr f) \<Longrightarrow> canonical (salt_text s) \<Longrightarrow> canonical (hash_text s)
     \<Longrightarrow> String f = s"
proof -
  assume d: "phc_Decode s = Some (Inr f)" and c: "canonical (salt_text s)" "canonical (hash_text s)"
  from d have "UnmarshalText zero_Format s = Some (None, f)"
    by (auto simp: phc_Decode_def split: option.splits prod.splits)
  from encode_decode_accepted [OF this c] show ?thesis .
qed

theorem encode_decode_roundtrip_witness:
  "phc_Decode ''$argon2id$v=19$m=65536,t=2,p=1$c29tZXNhbHQ$QUJD''
     = Some (Inr \<lparr>ID = ''argon2id'', Version = ''19'',
                  Params = [\<lparr>Name = ''m'', Value = ''65536''\<rparr>, \<lparr>Name = ''t'', Value = ''2''\<rparr>,
                            \<lparr>Name = ''p'', Value = ''1''\<rparr>],
                  Salt = [115, 111, 109, 101, 115, 97, 108, 116], Hash = [65, 66, 67]\<rparr>)
   \<and> canonical (salt_text ''$argon2id$v=19$m=65536,t=2,p=1$c29tZXNhbHQ$QUJD'')
   \<and> canonical (hash_text ''$argon2id$v=19$m=65536,t=2,p=1$c29tZXNhbHQ$QUJD'')
   \<and> String \<lparr>ID = ''argon2id'', Version = ''19'',
                  Params = [\<lparr>Name = ''m'', Value = ''65536''\<rparr>, \<lparr>Name = ''t'', Value = ''2''\<rparr>,
                            \<lparr>Name = ''p'', Value = ''1''\<rparr>],
                  Salt = [115, 111, 109, 101, 115, 97, 108, 116], Hash = [65, 66, 67]\<rparr>
     = ''$argon2id$v=19$m=65536,t=2,p=1$c29tZXNhbHQ$QUJD''"
proof -
  have d: "phc_Decode ''$argon2id$v=19$m=65536,t=2,p=1$c29tZXNhbHQ$QUJD''
     = Some (Inr \<lparr>ID = ''argon2id'', Version = ''19'',
                  Params = [\<lparr>Name = ''m'', Value = ''65536''\<rparr>, \<lparr>Name = ''t'', Value = ''2''\<rparr>,
                            \<lparr>Name = ''p'', Value = ''1''\<rparr>],
                  Salt = [115, 111, 109, 101, 115, 97, 108, 116], Hash = [65, 66, 67]\<rparr>)"
    by code_simp
  have c1: "canonical (salt_text ''$argon2id$v=19$m=65536,t=2,p=1$c29tZXNhbHQ$QUJD'')"
    by code_simp
  have c2: "canonical (hash_text ''$argon2id$v=19$m=65536,t=2,p=1$c29tZXNhbHQ$QUJD'')"
    by code_simp
  from encode_decode_roundtrip [OF d c1 c2] d c1 c2 show ?thesis by blast
qed

theorem encode_decode_counterexample:
  "phc_Decode ''$argon2id$QR''
     = Some (Inr \<lparr>ID = ''argon2id'', Version = [], Params = [], Salt = [65], Hash = []\<rparr>)
   \<and> String \<lparr>ID = ''argon2id'', Version = [], Params = [], Salt = [65], Hash = []\<rparr>
       = ''$argon2id$QQ''"
  by code_simp

text \<open>
  C3. A parameter named \<^verbatim>\<open>v\<close> is not taken for the version: \<^verbatim>\<open>$argon2id$v=aparam\<close> decodes to
  the identifier, an empty version and the one parameter \<^verbatim>\<open>v=aparam\<close>, and
  \<^verbatim>\<open>$argon2id$v=19,m=65536,t=2,p=1\<close> to an empty version and four parameters, the first of
  them \<^verbatim>\<open>v=19\<close>. Whenever a decoded record has a version, the version is all digits and
  the segment after the identifier is exactly \<^verbatim>\<open>v=\<close> followed by the version: the text
  ends there or goes on with the next \<^verbatim>\<open>$\<close>.\<close>

theorem version_not_confused_with_parameter_v:
  "phc_Decode ''$argon2id$v=aparam''
     = Some (Inr \<lparr>ID = ''argon2id'', Version = [],
                  Params = [\<lparr>Name = ''v'', Value = ''aparam''\<rparr>], Salt = [], Hash = []\<rparr>)
   \<and> phc_Decode ''$argon2id$v=19,m=65536,t=2,p=1''
     = Some (Inr \<lparr>ID = ''argon2id'', Version = [],
                  Params = [\<lparr>Name = ''v'', Value = ''19''\<rparr>, \<lparr>Name = ''m'', Value = ''65536''\<rparr>,
                            \<lparr>Name = ''t'', Value = ''2''\<rparr>, \<lparr>Name = ''p'', Value = ''1''\<rparr>],
                  Salt = [], Hash = []\<rparr>)
   \<and> (phc_Decode s = Some (Inr f) \<and> Version f \<noteq> [] \<longrightarrow>
        list_all digit (Version f)
        \<and> (\<exists>rest. s = ''$'' @ ID f @ ''$v='' @ Version f @ rest
              \<and> (rest = [] \<or> hd rest = CHR ''$'')))"
proof -
  have 1: "phc_Decode ''$argon2id$v=aparam''
     = Some (Inr \<lparr>ID = ''argon2id'', Version = [],
                  Params = [\<lparr>Name = ''v'', Value = ''aparam''\<rparr>], Salt = [], Hash = []\<rparr>)"
    by code_simp
  have 2: "phc_Decode ''$argon2id$v=19,m=65536,t=2,p=1''
     = Some (Inr \<lparr>ID = ''argon2id'', Version = [],
                  Params = [\<lparr>Name = ''v'', Value = ''19''\<rparr>, \<lparr>Name = ''m'', Value = ''65536''\<rparr>,
                            \<lparr>Name = ''t'', Value = ''2''\<rparr>, \<lparr>Name = ''p'', Value = ''1''\<rparr>],
                  Salt = [], Hash = []\<rparr>)"
    by code_simp
  have 3: "list_all digit (Version f)
        \<and> (\<exists>rest. s = ''$'' @ ID f @ ''$v='' @ Version f @ rest
              \<and> (rest = [] \<or> hd rest = CHR ''$''))"
    if d: "phc_Decode s = Some (Inr f)" and v: "Version f \<noteq> []"
  proof -
    from d have "UnmarshalText zero_Format s = Some (None, f)"
      by (auto simp: phc_Decode_def split: option.splits prod.splits)
    from decoded_version_segment [OF this] v show ?thesis by simp
  qed
  from 1 2 3 show ?thesis by blast
qed

theorem version_not_confused_with_parameter_v_witness:
  "phc_Decode ''$argon2id$v=19$m=65536,t=2,p=1''
     = Some (Inr \<lparr>ID = ''argon2id'', Version = ''19'',
                  Params = [\<lparr>Name = ''m'', Value = ''65536''\<rparr>,
                            \<lparr>Name = ''t'', Value = ''2''\<rparr>, \<lparr>Name = ''p'', Value = ''1''\<rparr>],
                  Salt = [], Hash = []\<rparr>)
   \<and> list_all digit ''19''
   \<and> (\<exists>rest. ''$argon2id$v=19$m=65536,t=2,p=1'' = ''$'' @ ''argon2id'' @ ''$v='' @ ''19'' @ rest
         \<and> (rest = [] \<or> hd rest = CHR ''$''))"
proof -
  have d: "phc_Decode ''$argon2id$v=19$m=65536,t=2,p=1''
     = Some (Inr \<lparr>ID = ''argon2id'', Version = ''19'',
                  Params = [\<lparr>Name = ''m'', Value = ''65536''\<rparr>,
                            \<lparr>Name = ''t'', Value = ''2''\<rparr>, \<lparr>Name = ''p'', Value = ''1''\<rparr>],
                  Salt = [], Hash = []\<rparr>)"
    by code_simp
  from version_not_confused_with_parameter_v [THEN conjunct2, THEN conjunct2, rule_format,
      OF conjI, OF d]
  have "list_all digit ''19''
   \<and> (\<exists>rest. ''$argon2id$v=19$m=65536,t=2,p=1'' = ''$'' @ ''argon2id'' @ ''$v='' @ ''19'' @ rest
         \<and> (rest = [] \<or> hd rest = CHR ''$''))"
    by simp
  with d show ?thesis by blast
qed

text \<open>
  C10. When \<^verbatim>\<open>UnmarshalText\<close> returns an error, the receiver keeps the value it had before
  the call, and the error is one of three kinds: the text does not match the pattern, the
  salt is not valid base64, or the hash is not valid base64.\<close>

theorem UnmarshalText_error_receiver_unchanged:
  "UnmarshalText f text = Some (Some err, f') \<Longrightarrow>
     f' = f \<and> (err = NotValidFormat text \<or> (\<exists>e. err = SaltDecodingError e)
                 \<or> (\<exists>e. err = HashDecodingError e))"
  by (auto simp: UnmarshalText_def Let_def split: option.splits if_splits sum.splits)

theorem UnmarshalText_error_receiver_unchanged_witness:
  "snd (the (UnmarshalText
              \<lparr>ID = ''scrypt'', Version = ''1'', Params = [], Salt = [1], Hash = [2]\<rparr>
              ''$argon2id$Q.''))
     = \<lparr>ID = ''scrypt'', Version = ''1'', Params = [], Salt = [1], Hash = [2]\<rparr>
   \<and> fst (the (UnmarshalText
              \<lparr>ID = ''scrypt'', Version = ''1'', Params = [], Salt = [1], Hash = [2]\<rparr>
              ''$argon2id$Q.''))
     = Some (SaltDecodingError (CorruptInputError 1))"
proof -
  have r: "UnmarshalText
             \<lparr>ID = ''scrypt'', Version = ''1'', Params = [], Salt = [1], Hash = [2]\<rparr>
             ''$argon2id$Q.''
           = Some (Some (SaltDecodingError (CorruptInputError 1)),
                   snd (the (UnmarshalText
                     \<lparr>ID = ''scrypt'', Version = ''1'', Params = [], Salt = [1], Hash = [2]\<rparr>
                     ''$argon2id$Q.'')))"
    by code_simp
  from UnmarshalText_error_receiver_unchanged [OF r] show ?thesis
    using r by simp
qed

section \<open>Properties of the argon2 hasher\<close>

text \<open>
  C4. For a PHC string that parses to a record \<open>d\<close> with the identifier \<^verbatim>\<open>argon2id\<close> and the
  version \<^verbatim>\<open>19\<close>, \<^verbatim>\<open>Decode\<close> returns an error if and only if the number of parameters is
  not 3, or their names are not \<^verbatim>\<open>m\<close>, \<^verbatim>\<open>t\<close>, \<^verbatim>\<open>p\<close> in this order, or \<^verbatim>\<open>m\<close> or \<^verbatim>\<open>t\<close> is
  not the decimal text of an unsigned 32-bit number, or \<^verbatim>\<open>p\<close> is not the decimal text of
  an unsigned 8-bit number, or the decoded hash is longer than \<open>2 ^ 32 - 1\<close> bytes. The
  error is that of the first check that fails, in this order, and names the field.
  Otherwise \<^verbatim>\<open>Decode\<close> returns \<open>d\<close> with the parameters whose memory, time and parallelism
  are the values of \<^verbatim>\<open>m\<close>, \<^verbatim>\<open>t\<close> and \<^verbatim>\<open>p\<close> and whose key length is the length of the
  decoded hash. Without the condition on the length of the hash the equivalence fails, as
  the record \<open>huge\<close> shows.\<close>

theorem Decode_error_iff:
  assumes "phc_Decode s = Some (Inr d)" and "ID d = argon2ID"
    and "Version d = Itoa argon2_Version"
  shows "((\<exists>e. Decode s = Some (Inl e)) \<longleftrightarrow>
            length (Params d) \<noteq> 3 \<or> map Name (Params d) \<noteq> [''m'', ''t'', ''p'']
            \<or> \<not> is_uint_decimal 32 (Value (Params d ! 0))
            \<or> \<not> is_uint_decimal 32 (Value (Params d ! 1))
            \<or> \<not> is_uint_decimal 8 (Value (Params d ! 2))
            \<or> length (Hash d) > 4294967295)
    \<and> Decode s = Some (
         if length (Params d) \<noteq> 3 then Inl (InvalidParameterCount (length (Params d)))
         else if map Name (Params d) \<noteq> [''m'', ''t'', ''p''] then Inl ParameterOrder
         else if \<not> is_uint_decimal 32 (Value (Params d ! 0))
           then Inl (MemoryParameterError (projl (ParseUint (Value (Params d ! 0)) 32)))
         else if \<not> is_uint_decimal 32 (Value (Params d ! 1))
           then Inl (TimeParameterError (projl (ParseUint (Value (Params d ! 1)) 32)))
         else if \<not> is_uint_decimal 8 (Value (Params d ! 2))
           then Inl (ParallelismParameterError (projl (ParseUint (Value (Params d ! 2)) 8)))
         else if length (Hash d) > 4294967295 then Inl (HashTooLong (length (Hash d)))
         else Inr (d, \<lparr>Memory = of_nat (dec_value (Value (Params d ! 0))),
                       Time = of_nat (dec_value (Value (Params d ! 1))),
                       Parallelism = of_nat (dec_value (Value (Params d ! 2))),
                       KeyLength = of_nat (length (Hash d))\<rparr>))
    \<and> (\<forall>d' p. Decode s = Some (Inr (d', p)) \<longrightarrow>
          d' = d \<and> unat (Memory p) = dec_value (Value (Params d ! 0))
          \<and> unat (Time p) = dec_value (Value (Params d ! 1))
          \<and> unat (Parallelism p) = dec_value (Value (Params d ! 2))
          \<and> unat (KeyLength p) = length (Hash d))"
proof -
  define c1 where "c1 \<longleftrightarrow> length (Params d) \<noteq> 3"
  define c2 where "c2 \<longleftrightarrow> map Name (Params d) \<noteq> [''m'', ''t'', ''p'']"
  define c3 where "c3 \<longleftrightarrow> \<not> is_uint_decimal 32 (Value (Params d ! 0))"
  define c4 where "c4 \<longleftrightarrow> \<not> is_uint_decimal 32 (Value (Params d ! 1))"
  define c5 where "c5 \<longleftrightarrow> \<not> is_uint_decimal 8 (Value (Params d ! 2))"
  define c6 where "c6 \<longleftrightarrow> length (Hash d) > 4294967295"
  define ok where "ok = \<lparr>Memory = of_nat (dec_value (Value (Params d ! 0))),
                       Time = of_nat (dec_value (Value (Params d ! 1))),
                       Parallelism = of_nat (dec_value (Value (Params d ! 2))),
                       KeyLength = of_nat (length (Hash d))\<rparr>"
  have D: "Decode s = Some (
         if c1 then Inl (InvalidParameterCount (length (Params d)))
         else if c2 then Inl ParameterOrder
         else if c3
           then Inl (MemoryParameterError (projl (ParseUint (Value (Params d ! 0)) 32)))
         else if c4
           then Inl (TimeParameterError (projl (ParseUint (Value (Params d ! 1)) 32)))
         else if c5
           then Inl (ParallelismParameterError (projl (ParseUint (Value (Params d ! 2)) 8)))
         else if c6 then Inl (HashTooLong (length (Hash d)))
         else Inr (d, ok))"
    unfolding c1_def c2_def c3_def c4_def c5_def c6_def ok_def
    by (rule Decode_binding [OF assms])
  have 1: "(\<exists>e. Decode s = Some (Inl e)) \<longleftrightarrow> c1 \<or> c2 \<or> c3 \<or> c4 \<or> c5 \<or> c6"
    unfolding D by simp
  have 3: "d' = d \<and> unat (Memory p) = dec_value (Value (Params d ! 0))
          \<and> unat (Time p) = dec_value (Value (Params d ! 1))
          \<and> unat (Parallelism p) = dec_value (Value (Params d ! 2))
          \<and> unat (KeyLength p) = length (Hash d)"
    if ok': "Decode s = Some (Inr (d', p))" for d' p
  proof -
    from ok' have n: "\<not> c1" "\<not> c2" "\<not> c3" "\<not> c4" "\<not> c5" "\<not> c6"
      unfolding D by (auto split: if_splits)
    with ok' have dp: "d' = d" "p = ok" unfolding D by simp_all
    from n have b: "dec_value (Value (Params d ! 0)) < 2 ^ 32"
      "dec_value (Value (Params d ! 1)) < 2 ^ 32" "dec_value (Value (Params d ! 2)) < 2 ^ 8"
      "length (Hash d) < 2 ^ 32"
      by (simp_all add: c3_def c4_def c5_def c6_def is_uint_decimal_def)
    have "unat (of_nat x :: 32 word) = x" if "x < 2 ^ 32" for x :: nat
      using that by (simp add: unat_of_nat)
    moreover have "unat (of_nat x :: 8 word) = x" if "x < 2 ^ 8" for x :: nat
      using that by (simp add: unat_of_nat)
    ultimately show ?thesis using dp b by (simp add: ok_def)
  qed
  from 1 D 3 show ?thesis
    unfolding c1_def c2_def c3_def c4_def c5_def c6_def ok_def by blast
qed

theorem Decode_error_iff_witness:
  "Decode ''$argon2id$v=19$m=65536,t=2,p=1$c29tZXNhbHQ$QUJD''
     = Some (Inr (\<lparr>ID = ''argon2id'', Version = ''19'',
                   Params = [\<lparr>Name = ''m'', Value = ''65536''\<rparr>, \<lparr>Name = ''t'', Value = ''2''\<rparr>,
                             \<lparr>Name = ''p'', Value = ''1''\<rparr>],
                   Salt = [115, 111, 109, 101, 115, 97, 108, 116], Hash = [65, 66, 67]\<rparr>,
                  \<lparr>Memory = 65536, Time = 2, Parallelism = 1, KeyLength = 3\<rparr>))"
  using Decode_error_iff [OF phc_Decode_example, THEN conjunct2, THEN conjunct1]
  by (simp add: argon2ID_def Itoa_Version is_uint_decimal_65536 is_uint_decimal_2_1 dec_value_examples)

theorem Decode_error_iff_counterexample:
  "phc_Decode (String huge) = Some (Inr huge)
   \<and> ID huge = argon2ID \<and> Version huge = Itoa argon2_Version
   \<and> length (Params huge) = 3 \<and> map Name (Params huge) = [''m'', ''t'', ''p'']
   \<and> is_uint_decimal 32 (Value (Params huge ! 0))
   \<and> is_uint_decimal 32 (Value (Params huge ! 1))
   \<and> is_uint_decimal 8 (Value (Params huge ! 2))
   \<and> Decode (String huge) = Some (Inl (HashTooLong 4294967296))"
proof -
  have i: "ID huge = argon2ID" by (simp add: huge_def argon2ID_def)
  have v: "Version huge = Itoa argon2_Version" by (simp add: huge_def Itoa_Version)
  have p: "Params huge = [\<lparr>Name = ''m'', Value = ''1''\<rparr>, \<lparr>Name = ''t'', Value = ''1''\<rparr>,
                      \<lparr>Name = ''p'', Value = ''1''\<rparr>]" by (simp add: huge_def)
  have h: "length (Hash huge) = 4294967296" by (simp add: huge_def length_huge_hash)
  have "Decode (String huge) = Some (Inl (HashTooLong 4294967296))"
    using Decode_binding [OF phc_Decode_huge i v]
    by (simp add: p h is_uint_decimal_1)
  with phc_Decode_huge i v show ?thesis
    by (simp add: p is_uint_decimal_1)
qed







text \<open>
  C8. \<^verbatim>\<open>New\<close> without options gives the parameters memory \<open>46 * 1024\<close>, time 1,
  parallelism 1 and key length 32, and the salt generator of 16 bytes over the random
  source. Options are applied in order to this default hasher, so a parameter or
  salt-generator option given last decides. A salt returned by the default generator has
  16 bytes, and when the source delivers 16 bytes in one read the generator returns
  them.\<close>

theorem New_defaults:
  "params (New rand_Reader []) = \<lparr>Memory = 47104, Time = 1, Parallelism = 1, KeyLength = 32\<rparr>
   \<and> salt (New rand_Reader []) = NewSaltGenerator 16 rand_Reader
   \<and> New rand_Reader opts = foldl (\<lambda>h opt. opt h) (New rand_Reader []) opts
   \<and> params (New rand_Reader (opts @ [WithParameters ps])) = ps
   \<and> salt (New rand_Reader (opts @ [WithSaltGenerator g])) = g
   \<and> (NewSaltGenerator 16 rand_Reader w = Some (Inr slt, w') \<longrightarrow> length slt = 16)
   \<and> (rand_Reader 16 w = ((bs, None), w') \<and> length bs = 16 \<longrightarrow>
        NewSaltGenerator 16 rand_Reader w = Some (Inr bs, w'))"
proof -
  have 1: "params (New rand_Reader []) = \<lparr>Memory = 47104, Time = 1, Parallelism = 1, KeyLength = 32\<rparr>"
    "salt (New rand_Reader []) = NewSaltGenerator 16 rand_Reader"
    by (simp_all add: New_def defaultOptions_def zero_hasher_def WithParameters_def
          WithSaltGenerator_def)
  have 2: "New rand_Reader opts = foldl (\<lambda>h opt. opt h) (New rand_Reader []) opts"
    by (simp add: New_def)
  have 3: "params (New rand_Reader (opts @ [WithParameters ps])) = ps"
    "salt (New rand_Reader (opts @ [WithSaltGenerator g])) = g"
    by (simp_all add: New_def WithParameters_def WithSaltGenerator_def)
  have 4: "NewSaltGenerator 16 rand_Reader w = Some (Inr slt, w') \<longrightarrow> length slt = 16"
    using NewSaltGenerator_length [of 16 rand_Reader w slt w'] by blast
  have 5: "rand_Reader 16 w = ((bs, None), w') \<and> length bs = 16 \<longrightarrow>
        NewSaltGenerator 16 rand_Reader w = Some (Inr bs, w')"
    using NewSaltGenerator_one_read [of rand_Reader 16 w bs w'] by simp
  from 1 2 3 4 5 show ?thesis by blast
qed

theorem New_defaults_witness:
  "salt (New (\<lambda>k w. ((replicate k (of_nat w), None), Suc w)) []) (5 :: nat)
     = Some (Inr (replicate 16 5), 6)
   \<and> length (replicate 16 (5 :: byte)) = 16
   \<and> params (New (\<lambda>k w. ((replicate k (of_nat w), None), Suc w))
        [WithParameters \<lparr>Memory = 65536, Time = 2, Parallelism = 4, KeyLength = 16\<rparr>]
          :: nat hasher)
     = \<lparr>Memory = 65536, Time = 2, Parallelism = 4, KeyLength = 16\<rparr>"
proof -
  note T = New_defaults [of "\<lambda>k w. ((replicate k (of_nat w), None), Suc w)" "[]"
       "\<lparr>Memory = 65536, Time = 2, Parallelism = 4, KeyLength = 16\<rparr>"
       "\<lambda>w. Some (Inr [1, 2, 3], w)" "5 :: nat" "replicate 16 5" 6 "replicate 16 5"]
  from T have s: "salt (New (\<lambda>k w. ((replicate k (of_nat w), None), Suc w)) [])
      = NewSaltGenerator 16 (\<lambda>k w. ((replicate k (of_nat w), None), Suc w))"
    by blast
  from T have g: "NewSaltGenerator 16 (\<lambda>k w. ((replicate k (of_nat w), None), Suc w)) (5 :: nat)
      = Some (Inr (replicate 16 5), 6)"
    by simp
  from T g have l: "length (replicate 16 (5 :: byte)) = 16" by blast
  from T have p: "params (New (\<lambda>k w. ((replicate k (of_nat w), None), Suc w))
        [WithParameters \<lparr>Memory = 65536, Time = 2, Parallelism = 4, KeyLength = 16\<rparr>]
          :: nat hasher)
     = \<lparr>Memory = 65536, Time = 2, Parallelism = 4, KeyLength = 16\<rparr>"
    by simp
  from s g l p show ?thesis by simp
qed



end
